theory Spec2Isabelle
  imports Complex_Main "HOL-Library.Log_Nat"
begin

section \<open>Double-precision numbers\<close>

text \<open>
  \<^verbatim>\<open>utils/eclipses.py\<close> computes on NumPy \<open>float64\<close> values. A value is
  not-a-number, one of the two infinities, or a finite number, which is a rational.
  Comparisons and arithmetic follow IEEE 754 binary64: every comparison with
  not-a-number is false, and the result of an operation on finite numbers is the exact
  result rounded to the nearest number with 53 significant bits (to the even one at a
  tie; exponents from \<open>-1074\<close> for the last bit of a subnormal number up to overflow
  at \<open>2^1024\<close>). The two zeros are not told apart: no operation below can see the sign
  of a zero except a division by zero, which takes the zero as positive.
\<close>

datatype npfloat = NaN | PInf | NInf | Fin rat

text \<open>Rounding to the nearest integer, to the even one at a tie.\<close>

definition rne :: "rat \<Rightarrow> int" where
  "rne q = (let n = \<lfloor>q\<rfloor>; d = q - of_int n
            in if d < 1 / 2 then n else if 1 / 2 < d then n + 1
               else if even n then n else n + 1)"

text \<open>The binary exponent \<open>e\<close> of a positive number: \<open>2^e <= x < 2^(e+1)\<close>.\<close>

definition floor_log2 :: "rat \<Rightarrow> int" where
  "floor_log2 x = (let (a, b) = quotient_of x; d = bitlen a - bitlen b
                   in if 2 powi d \<le> x then d else d - 1)"

text \<open>
  The exponent of the last bit that a double near \<open>x\<close> keeps (53 significant bits,
  and never below the last bit of a subnormal number), and the multiple of that power
  of two nearest to \<open>x\<close>.
\<close>

definition quantum :: "rat \<Rightarrow> int" where
  "quantum x = max (floor_log2 \<bar>x\<bar> - 52) (- 1074)"

definition nearest :: "rat \<Rightarrow> rat" where
  "nearest x = of_int (rne (x / 2 powi quantum x)) * 2 powi quantum x"

text \<open>Rounding to double precision: to the nearest double, or to an infinity on overflow.\<close>

definition round64 :: "rat \<Rightarrow> npfloat" where
  "round64 x =
     (if x = 0 then Fin 0
      else if 2 powi 1024 \<le> \<bar>nearest x\<bar> then (if 0 < x then PInf else NInf)
      else Fin (nearest x))"

text \<open>A decimal literal of the source denotes the nearest double.\<close>

definition lit :: "rat \<Rightarrow> npfloat" where
  "lit q = round64 q"

fun isnan :: "npfloat \<Rightarrow> bool" where
  "isnan NaN = True"
| "isnan _ = False"

text \<open>\<open>np.isfinite\<close>: neither not-a-number nor an infinity.\<close>

fun isfinite :: "npfloat \<Rightarrow> bool" where
  "isfinite (Fin _) = True"
| "isfinite _ = False"

fun f_lt :: "npfloat \<Rightarrow> npfloat \<Rightarrow> bool" where
  "f_lt NaN _ = False"
| "f_lt _ NaN = False"
| "f_lt PInf _ = False"
| "f_lt _ NInf = False"
| "f_lt NInf _ = True"
| "f_lt _ PInf = True"
| "f_lt (Fin a) (Fin b) = (a < b)"

fun f_eq :: "npfloat \<Rightarrow> npfloat \<Rightarrow> bool" where
  "f_eq NaN _ = False"
| "f_eq _ NaN = False"
| "f_eq x y = (x = y)"

definition f_gt :: "npfloat \<Rightarrow> npfloat \<Rightarrow> bool" where
  "f_gt x y = f_lt y x"

definition f_le :: "npfloat \<Rightarrow> npfloat \<Rightarrow> bool" where
  "f_le x y = (f_lt x y \<or> f_eq x y)"

definition f_ge :: "npfloat \<Rightarrow> npfloat \<Rightarrow> bool" where
  "f_ge x y = f_le y x"

fun f_neg :: "npfloat \<Rightarrow> npfloat" where
  "f_neg NaN = NaN"
| "f_neg PInf = NInf"
| "f_neg NInf = PInf"
| "f_neg (Fin a) = Fin (- a)"

fun f_add :: "npfloat \<Rightarrow> npfloat \<Rightarrow> npfloat" where
  "f_add NaN _ = NaN"
| "f_add _ NaN = NaN"
| "f_add PInf NInf = NaN"
| "f_add NInf PInf = NaN"
| "f_add PInf _ = PInf"
| "f_add _ PInf = PInf"
| "f_add NInf _ = NInf"
| "f_add _ NInf = NInf"
| "f_add (Fin a) (Fin b) = round64 (a + b)"

definition f_sub :: "npfloat \<Rightarrow> npfloat \<Rightarrow> npfloat" where
  "f_sub x y = f_add x (f_neg y)"

fun f_mul :: "npfloat \<Rightarrow> npfloat \<Rightarrow> npfloat" where
  "f_mul NaN _ = NaN"
| "f_mul _ NaN = NaN"
| "f_mul (Fin a) (Fin b) = round64 (a * b)"
| "f_mul (Fin a) PInf = (if a = 0 then NaN else if 0 < a then PInf else NInf)"
| "f_mul (Fin a) NInf = (if a = 0 then NaN else if 0 < a then NInf else PInf)"
| "f_mul PInf (Fin b) = (if b = 0 then NaN else if 0 < b then PInf else NInf)"
| "f_mul NInf (Fin b) = (if b = 0 then NaN else if 0 < b then NInf else PInf)"
| "f_mul PInf PInf = PInf"
| "f_mul NInf NInf = PInf"
| "f_mul _ _ = NInf"

text \<open>
  Division of a finite number by an infinity is zero, infinity by infinity and zero by
  zero are not-a-number, and a non-zero number by zero is an infinity (NumPy warns and
  does not raise).
\<close>

fun f_div :: "npfloat \<Rightarrow> npfloat \<Rightarrow> npfloat" where
  "f_div NaN _ = NaN"
| "f_div _ NaN = NaN"
| "f_div (Fin a) (Fin b) =
     (if b = 0 then (if a = 0 then NaN else if 0 < a then PInf else NInf)
      else round64 (a / b))"
| "f_div (Fin a) _ = Fin 0"
| "f_div PInf (Fin b) = (if b < 0 then NInf else PInf)"
| "f_div NInf (Fin b) = (if b < 0 then PInf else NInf)"
| "f_div _ _ = NaN"

text \<open>
  C's \<open>fmod\<close>: the remainder of the division truncated towards zero, computed
  exactly; it has the sign of the dividend.
\<close>

fun f_fmod :: "npfloat \<Rightarrow> npfloat \<Rightarrow> npfloat" where
  "f_fmod NaN _ = NaN"
| "f_fmod _ NaN = NaN"
| "f_fmod PInf _ = NaN"
| "f_fmod NInf _ = NaN"
| "f_fmod (Fin a) (Fin b) =
     (if b = 0 then NaN
      else Fin (a - of_int (if 0 \<le> a / b then \<lfloor>a / b\<rfloor> else \<lceil>a / b\<rceil>) * b))"
| "f_fmod (Fin a) _ = Fin a"

text \<open>
  The operator \<open>%\<close> on doubles, in NumPy as in Python: \<open>fmod\<close>, and when the
  remainder is not zero and its sign differs from the divisor's, the divisor is added
  (a rounded addition).
\<close>

definition np_mod :: "npfloat \<Rightarrow> npfloat \<Rightarrow> npfloat" where
  "np_mod a b =
     (let m = f_fmod a b
      in if f_eq b (Fin 0) then m
         else if isnan m then m
         else if \<not> f_eq m (Fin 0) then
           (if f_lt b (Fin 0) \<noteq> f_lt m (Fin 0) then f_add m b else m)
         else Fin 0)"

section \<open>Phases (\<^verbatim>\<open>utils/eclipses.py\<close>)\<close>

text \<open>
  \<open>time_to_phase(times, period, t0, centre)\<close> on an array of times, line by line.
  \<open>start_phase = centre - 0.5\<close>:
\<close>

definition start_phase :: "npfloat \<Rightarrow> npfloat" where
  "start_phase centre = f_sub centre (lit (5 / 10))"

text \<open>
  \<open>t0 += start_phase * period\<close>, and the operand of \<open>% 1.0\<close> in the last line,
  \<open>(times - t0) / period\<close>: the number of periods from the shifted epoch to the
  time \<open>t\<close>.
\<close>

definition cycles :: "npfloat \<Rightarrow> npfloat \<Rightarrow> npfloat \<Rightarrow> npfloat \<Rightarrow> npfloat" where
  "cycles t period t0 centre =
     (let t0' = f_add t0 (f_mul (start_phase centre) period)
      in f_div (f_sub t t0') period)"

text \<open>\<open>phases = ((times - t0) / period) % 1.0 + start_phase\<close>, element by element.\<close>

definition time_to_phase :: "npfloat list \<Rightarrow> npfloat \<Rightarrow> npfloat \<Rightarrow> npfloat \<Rightarrow> npfloat list" where
  "time_to_phase tms period t0 centre =
     map (\<lambda>t. f_add (np_mod (cycles t period t0 centre) (Fin 1)) (start_phase centre)) tms"

section \<open>Eclipse indices and masks (\<^verbatim>\<open>utils/eclipses.py\<close>)\<close>

datatype error = IndexError | ValueError string | CollaboratorError string

text \<open>
  \<open>np.where(cond)[0]\<close> on a one-dimensional boolean array: the positions that hold
  True, in increasing order.
\<close>

definition np_where :: "bool list \<Rightarrow> nat list" where
  "np_where cond = filter (\<lambda>i. cond ! i) [0..<length cond]"

text \<open>
  \<open>get_eclipse_indices(phases, pos, width)\<close>: the guard for an absent eclipse first,
  then the three branches on \<open>pos\<close> in the order of the source. The literals
  \<open>0\<close>, \<open>1\<close>, \<open>2\<close>, \<open>0.95\<close> and \<open>0.05\<close> are the source's.
\<close>

definition get_eclipse_indices :: "npfloat list \<Rightarrow> npfloat \<Rightarrow> npfloat \<Rightarrow> nat list" where
  "get_eclipse_indices phases pos width =
     (if isnan pos \<or> isnan width \<or> f_eq width (Fin 0) then []
      else if f_gt pos (lit (95 / 100)) then
        np_where (map (\<lambda>p. f_ge p (f_sub pos (f_div width (Fin 2)))
                         \<or> f_le p (f_sub (f_add pos (f_div width (Fin 2))) (Fin 1))) phases)
      else if f_lt pos (lit (5 / 100)) then
        np_where (map (\<lambda>p. f_ge p (f_add (f_sub pos (f_div width (Fin 2))) (Fin 1))
                         \<or> f_le p (f_add pos (f_div width (Fin 2)))) phases)
      else
        np_where (map (\<lambda>p. f_ge p (f_sub pos (f_div width (Fin 2)))
                         \<and> f_le p (f_add pos (f_div width (Fin 2)))) phases))"

text \<open>
  \<open>mask[idx] = True\<close>: NumPy raises IndexError when an index is outside the array
  and stores nothing; otherwise every indexed position is set.
\<close>

fun assign_true :: "bool list \<Rightarrow> nat list \<Rightarrow> error + bool list" where
  "assign_true msk [] = Inr msk"
| "assign_true msk (i # idx) =
     (if i < length msk then assign_true (msk[i := True]) idx else Inl IndexError)"

definition get_eclipse_mask :: "npfloat list \<Rightarrow> npfloat \<Rightarrow> npfloat \<Rightarrow> error + bool list" where
  "get_eclipse_mask phases pos width =
     (let idx = get_eclipse_indices phases pos width;
          msk = replicate (length phases) False
      in assign_true msk idx)"

section \<open>The pipeline: data (\<^verbatim>\<open>pipeline/pipeline.py\<close>)\<close>

text \<open>
  \<open>MonoCBPPipeline\<close> drives four collaborators whose code is outside the
  repository's orchestration module: the eclipse masker, the transit finder, the model
  comparator and the transit injector. They are parameters of the model: each takes the
  state of the world it works on (the light-curve files, its own attributes) and returns
  an updated world together with its result or the exception it raised. The pipeline
  catches no exception of theirs.
\<close>

datatype level = INFO | WARNING

text \<open>
  Keyword arguments handed through to \<open>EclipseMasker.mask_all\<close> (the source passes
  \<open>**kwargs\<close> on as they are).
\<close>

datatype pyval = PyNone | PyBool bool | PyInt int | PyStr string

type_synonym kwargs = "(string \<times> pyval) list"

text \<open>
  \<open>ModelComparator.compare_events\<close> receives either a list of event snippets or the
  path of a directory of snippet files as its first argument.
\<close>

datatype 's vet_source = Snippets "'s list" | SnippetDir string

text \<open>The collaborator calls, with their arguments, in the order they were made.\<close>

datatype 's call =
    MaskAll kwargs
  | ProcessDirectory string string string "string option"
  | CompareEvents "'s vet_source" string string
  | InjectionRetrieval string int string string

text \<open>
  \<open>finder_event_snippets\<close> reads \<open>transit_finder.results.get('event_snippets')\<close>:
  \<open>None\<close> when the key is absent. Tables (data frames) are lists of rows, so that
  \<open>len\<close> is \<open>length\<close>.
\<close>

record ('w, 'r, 's) collaborators =
  mask_all :: "kwargs \<Rightarrow> 'w \<Rightarrow> error option \<times> 'w"
  process_directory :: "string \<Rightarrow> string \<Rightarrow> string \<Rightarrow> string option \<Rightarrow> 'w \<Rightarrow> (error + 'r list) \<times> 'w"
  finder_event_snippets :: "'w \<Rightarrow> 's list option"
  compare_events :: "'s vet_source \<Rightarrow> string \<Rightarrow> string \<Rightarrow> 'w \<Rightarrow> (error + 'r list) \<times> 'w"
  injector_run :: "string \<Rightarrow> int \<Rightarrow> string \<Rightarrow> string \<Rightarrow> 'w \<Rightarrow> (error + 'r list) \<times> 'w"

text \<open>
  The attributes of one \<open>MonoCBPPipeline\<close> instance that the methods read or write
  (\<open>transit_injector\<close> is \<open>None\<close> or the injector built from the models' path;
  \<open>config_n_injections\<close> is \<open>config['injection_retrieval']['n_injections']\<close>),
  the world of the collaborators, the records of the module's logger and the trace of
  collaborator calls.
\<close>

record ('w, 'r, 's) pipeline =
  data_dir :: string
  output_dir :: string
  config_n_injections :: int
  transit_injector :: "string option"
  results :: "string \<rightharpoonup> 'r list"
  world :: 'w
  logged :: "(level \<times> string) list"
  calls :: "'s call list"

text \<open>The keyword arguments of the three stage methods; \<open>None\<close> is an absent key.
  For \<open>event_snippets\<close> an absent key and an explicit \<open>None\<close> differ in
  \<open>run\<close>, so both are kept apart.\<close>

record ft_kwargs =
  ft_output_file :: "string option"
  ft_output_dir :: "string option"
  ft_plot_output_dir :: "string option"

record 's vet_kwargs =
  vk_event_snippets :: "'s list option option"
  vk_event_snippets_dir :: "string option"
  vk_output_file :: "string option"
  vk_output_dir :: "string option"

record ir_kwargs =
  ir_n_injections :: "int option"
  ir_output_file :: "string option"
  ir_output_dir :: "string option"

text \<open>The \<open>**kwargs\<close> of \<open>run\<close>: only these four keys are read.\<close>

record 's run_kwargs =
  mask_eclipses_kwargs :: "kwargs option"
  find_transits_kwargs :: "ft_kwargs option"
  vet_candidates_kwargs :: "'s vet_kwargs option"
  injection_retrieval_kwargs :: "ir_kwargs option"

definition no_ft_kwargs :: ft_kwargs where
  "no_ft_kwargs = \<lparr>ft_output_file = None, ft_output_dir = None, ft_plot_output_dir = None\<rparr>"

definition no_vet_kwargs :: "'s vet_kwargs" where
  "no_vet_kwargs = \<lparr>vk_event_snippets = None, vk_event_snippets_dir = None,
                     vk_output_file = None, vk_output_dir = None\<rparr>"

definition no_ir_kwargs :: ir_kwargs where
  "no_ir_kwargs = \<lparr>ir_n_injections = None, ir_output_file = None, ir_output_dir = None\<rparr>"

definition no_run_kwargs :: "'s run_kwargs" where
  "no_run_kwargs = \<lparr>mask_eclipses_kwargs = None, find_transits_kwargs = None,
                     vet_candidates_kwargs = None, injection_retrieval_kwargs = None\<rparr>"

section \<open>The pipeline: operations\<close>

text \<open>Decimal digits of a number, as an f-string prints \<open>len(...)\<close>.\<close>

definition digit_char :: "nat \<Rightarrow> char" where
  "digit_char d = ''0123456789'' ! d"

fun str_nat :: "nat \<Rightarrow> string" where
  "str_nat n = (if n < 10 then [digit_char n] else str_nat (n div 10) @ [digit_char (n mod 10)])"

declare str_nat.simps [simp del]

text \<open>\<open>os.path.join(a, b)\<close> on POSIX paths.\<close>

definition os_path_join :: "string \<Rightarrow> string \<Rightarrow> string" where
  "os_path_join a b =
     (if b \<noteq> [] \<and> hd b = CHR ''/'' then b
      else if a = [] \<or> last a = CHR ''/'' then a @ b
      else a @ ''/'' @ b)"

definition log_msg :: "level \<Rightarrow> string \<Rightarrow> ('w, 'r, 's) pipeline \<Rightarrow> ('w, 'r, 's) pipeline" where
  "log_msg lvl msg p = p\<lparr>logged := logged p @ [(lvl, msg)]\<rparr>"

definition record_call :: "'s call \<Rightarrow> ('w, 'r, 's) pipeline \<Rightarrow> ('w, 'r, 's) pipeline" where
  "record_call c p = p\<lparr>calls := calls p @ [c]\<rparr>"

text \<open>Sequencing: an exception of the first computation ends the whole.\<close>

definition and_then ::
  "(error + 'a) \<times> 'p \<Rightarrow> ('a \<Rightarrow> 'p \<Rightarrow> (error + 'b) \<times> 'p) \<Rightarrow> (error + 'b) \<times> 'p" where
  "and_then r f = (case r of (Inl e, p) \<Rightarrow> (Inl e, p) | (Inr x, p) \<Rightarrow> f x p)"

text \<open>
  \<open>__init__\<close>: the attributes after construction. \<open>if transit_models_path:\<close> is
  false for \<open>None\<close> and for the empty string. Whether the output directory existed and
  the number of catalogue rows are given; loading the catalogue and constructing the
  collaborators are taken to have succeeded in the world \<open>w\<close>.
\<close>

definition init ::
  "string \<Rightarrow> string \<Rightarrow> string option \<Rightarrow> int \<Rightarrow> bool \<Rightarrow> nat \<Rightarrow> 'w \<Rightarrow> ('w, 'r, 's) pipeline" where
  "init data_dir0 output_dir0 transit_models_path n_injections0 dir_exists n_targets w =
     (let injector = (case transit_models_path of
                        None \<Rightarrow> None
                      | Some path \<Rightarrow> if path = [] then None else Some path)
      in \<lparr>data_dir = data_dir0, output_dir = output_dir0,
          config_n_injections = n_injections0,
          transit_injector = injector,
          results = Map.empty,
          world = w,
          logged =
            (if dir_exists then [] else [(INFO, ''Created output directory: '' @ output_dir0)])
            @ [(INFO, ''Initialized pipeline with '' @ str_nat n_targets @ '' targets'')]
            @ (if injector = None
               then [(INFO, ''Transit models not provided - injection-retrieval will not be available'')]
               else []),
          calls = []\<rparr>)"

text \<open>\<open>mask_eclipses(**kwargs)\<close>.\<close>

definition mask_eclipses ::
  "('w, 'r, 's) collaborators \<Rightarrow> kwargs \<Rightarrow> ('w, 'r, 's) pipeline
   \<Rightarrow> (error + unit) \<times> ('w, 'r, 's) pipeline" where
  "mask_eclipses C kw p =
     (let p1 = record_call (MaskAll kw) p in
      case mask_all C kw (world p1) of
        (Some e, w) \<Rightarrow> (Inl e, p1\<lparr>world := w\<rparr>)
      | (None, w) \<Rightarrow> (Inr (), log_msg INFO ''Eclipse masking complete'' (p1\<lparr>world := w\<rparr>)))"

text \<open>\<open>find_transits(output_file, output_dir, plot_output_dir)\<close>. The result is
  returned to the caller and not stored in \<open>self.results\<close>.\<close>

definition find_transits ::
  "('w, 'r, 's) collaborators \<Rightarrow> string \<Rightarrow> string option \<Rightarrow> string option
   \<Rightarrow> ('w, 'r, 's) pipeline \<Rightarrow> (error + 'r list) \<times> ('w, 'r, 's) pipeline" where
  "find_transits C output_file output_dir_arg plot_output_dir p =
     (let out_dir = (case output_dir_arg of None \<Rightarrow> output_dir p | Some d \<Rightarrow> d);
          p1 = record_call (ProcessDirectory (data_dir p) output_file out_dir plot_output_dir) p
      in case process_directory C (data_dir p) output_file out_dir plot_output_dir (world p1) of
        (Inl e, w) \<Rightarrow> (Inl e, p1\<lparr>world := w\<rparr>)
      | (Inr res, w) \<Rightarrow>
          (Inr res,
           log_msg INFO (''Transit finding complete: '' @ str_nat (length res) @ '' events detected'')
             (p1\<lparr>world := w\<rparr>)))"

text \<open>
  \<open>vet_candidates(event_snippets, event_snippets_dir, output_file, output_dir)\<close>:
  the in-memory branch for every \<open>event_snippets\<close> that is not \<open>None\<close>, the
  empty list included; otherwise the directory, by default
  \<open>os.path.join(self.output_dir, 'event_snippets')\<close>.
\<close>

definition vet_candidates ::
  "('w, 'r, 's) collaborators \<Rightarrow> 's list option \<Rightarrow> string option \<Rightarrow> string \<Rightarrow> string option
   \<Rightarrow> ('w, 'r, 's) pipeline \<Rightarrow> (error + 'r list) \<times> ('w, 'r, 's) pipeline" where
  "vet_candidates C event_snippets event_snippets_dir output_file output_dir_arg p =
     (let out_dir = (case output_dir_arg of None \<Rightarrow> output_dir p | Some d \<Rightarrow> d);
          (src, p1) =
            (case event_snippets of
               Some snippets \<Rightarrow>
                 (Snippets snippets,
                  log_msg INFO (''Vetting '' @ str_nat (length snippets) @ '' candidates'') p)
             | None \<Rightarrow>
                 (let dir = (case event_snippets_dir of
                               None \<Rightarrow> os_path_join (output_dir p) ''event_snippets''
                             | Some d \<Rightarrow> d)
                  in (SnippetDir dir, log_msg INFO (''Vetting candidates from '' @ dir) p)));
          p2 = record_call (CompareEvents src output_file out_dir) p1
      in case compare_events C src output_file out_dir (world p2) of
        (Inl e, w) \<Rightarrow> (Inl e, p2\<lparr>world := w\<rparr>)
      | (Inr res, w) \<Rightarrow>
          (Inr res,
           log_msg INFO (''Model comparison complete: '' @ str_nat (length res) @ '' events vetted'')
             (p2\<lparr>world := w\<rparr>)))"

text \<open>\<open>run_injection_retrieval(n_injections, output_file, output_dir)\<close>: raises
  \<open>ValueError\<close> without an injector; \<open>output_dir or self.data_dir\<close> takes the data
  directory for \<open>None\<close> and for the empty string.\<close>

definition run_injection_retrieval ::
  "('w, 'r, 's) collaborators \<Rightarrow> int option \<Rightarrow> string \<Rightarrow> string option
   \<Rightarrow> ('w, 'r, 's) pipeline \<Rightarrow> (error + 'r list) \<times> ('w, 'r, 's) pipeline" where
  "run_injection_retrieval C n_injections output_file output_dir_arg p =
     (if transit_injector p = None
      then (Inl (ValueError ''Transit injector not initialized - provide transit_models_path''), p)
      else
        (let n = (case n_injections of None \<Rightarrow> config_n_injections p | Some k \<Rightarrow> k);
             out_dir = (case output_dir_arg of
                          None \<Rightarrow> data_dir p
                        | Some d \<Rightarrow> if d = [] then data_dir p else d);
             p1 = record_call (InjectionRetrieval (data_dir p) n output_file out_dir) p
         in case injector_run C (data_dir p) n output_file out_dir (world p1) of
           (Inl e, w) \<Rightarrow> (Inl e, p1\<lparr>world := w\<rparr>)
         | (Inr res, w) \<Rightarrow>
             (Inr res, log_msg INFO ''Injection-retrieval complete'' (p1\<lparr>world := w\<rparr>))))"

text \<open>The methods called with keyword arguments, each absent key at its default.\<close>

definition find_transits_kw ::
  "('w, 'r, 's) collaborators \<Rightarrow> ft_kwargs \<Rightarrow> ('w, 'r, 's) pipeline
   \<Rightarrow> (error + 'r list) \<times> ('w, 'r, 's) pipeline" where
  "find_transits_kw C kw p =
     find_transits C (case ft_output_file kw of None \<Rightarrow> ''transit_events.txt'' | Some f \<Rightarrow> f)
       (ft_output_dir kw) (ft_plot_output_dir kw) p"

definition vet_candidates_kw ::
  "('w, 'r, 's) collaborators \<Rightarrow> 's vet_kwargs \<Rightarrow> ('w, 'r, 's) pipeline
   \<Rightarrow> (error + 'r list) \<times> ('w, 'r, 's) pipeline" where
  "vet_candidates_kw C kw p =
     vet_candidates C (case vk_event_snippets kw of None \<Rightarrow> None | Some v \<Rightarrow> v)
       (vk_event_snippets_dir kw)
       (case vk_output_file kw of None \<Rightarrow> ''vetting_results.csv'' | Some f \<Rightarrow> f)
       (vk_output_dir kw) p"

definition run_injection_retrieval_kw ::
  "('w, 'r, 's) collaborators \<Rightarrow> ir_kwargs \<Rightarrow> ('w, 'r, 's) pipeline
   \<Rightarrow> (error + 'r list) \<times> ('w, 'r, 's) pipeline" where
  "run_injection_retrieval_kw C kw p =
     run_injection_retrieval C (ir_n_injections kw)
       (case ir_output_file kw of None \<Rightarrow> ''injection_results.csv'' | Some f \<Rightarrow> f)
       (ir_output_dir kw) p"

text \<open>
  \<open>run(find_transits, vet_candidates, injection_retrieval, **kwargs)\<close>, step by
  step as the source numbers them. Step 2 (lines 126-129):
\<close>

definition transit_finding_step ::
  "('w, 'r, 's) collaborators \<Rightarrow> bool \<Rightarrow> 's run_kwargs \<Rightarrow> ('w, 'r, 's) pipeline
   \<Rightarrow> (error + unit) \<times> ('w, 'r, 's) pipeline" where
  "transit_finding_step C find_transits_flag kwargs p =
     (if find_transits_flag then
        and_then
          (find_transits_kw C
             (case find_transits_kwargs kwargs of None \<Rightarrow> no_ft_kwargs | Some kw \<Rightarrow> kw)
             (log_msg INFO ''Step 2: Transit finding'' p))
          (\<lambda>transit_results p1.
             (Inr (), p1\<lparr>results := (results p1)(''transit_finding'' \<mapsto> transit_results)\<rparr>))
      else (Inr (), p))"

text \<open>
  Step 3 (lines 132-149): the transit finder's snippets are added to the caller's
  keyword arguments when there are some and the caller gave no \<open>event_snippets\<close>
  key; the message about file-based processing is logged whenever the finder has none.
\<close>

definition vetting_step ::
  "('w, 'r, 's) collaborators \<Rightarrow> bool \<Rightarrow> bool \<Rightarrow> 's run_kwargs \<Rightarrow> ('w, 'r, 's) pipeline
   \<Rightarrow> (error + unit) \<times> ('w, 'r, 's) pipeline" where
  "vetting_step C vet_candidates_flag find_transits_flag kwargs p =
     (if vet_candidates_flag \<and> find_transits_flag then
        (let p1 = log_msg INFO ''Step 3: Model comparison vetting'' p;
             event_snippets = (case finder_event_snippets C (world p1) of
                                 None \<Rightarrow> [] | Some snippets \<Rightarrow> snippets);
             vet_kwargs = (case vet_candidates_kwargs kwargs of
                             None \<Rightarrow> no_vet_kwargs | Some kw \<Rightarrow> kw);
             (vet_kwargs1, p2) =
               (if length event_snippets > 0 \<and> vk_event_snippets vet_kwargs = None then
                  (vet_kwargs\<lparr>vk_event_snippets := Some (Some event_snippets)\<rparr>,
                   log_msg INFO (''Passing '' @ str_nat (length event_snippets) @ '' event snippets'') p1)
                else if length event_snippets = 0 then
                  (vet_kwargs,
                   log_msg INFO ''No event snippets in memory, using file-based processing'' p1)
                else (vet_kwargs, p1))
         in and_then (vet_candidates_kw C vet_kwargs1 p2)
              (\<lambda>vetting_results p3.
                 (Inr (), p3\<lparr>results := (results p3)(''vetting'' \<mapsto> vetting_results)\<rparr>)))
      else (Inr (), p))"

text \<open>Step 4 (lines 152-158): a warning and no call when there is no injector.\<close>

definition injection_step ::
  "('w, 'r, 's) collaborators \<Rightarrow> bool \<Rightarrow> 's run_kwargs \<Rightarrow> ('w, 'r, 's) pipeline
   \<Rightarrow> (error + unit) \<times> ('w, 'r, 's) pipeline" where
  "injection_step C injection_retrieval_flag kwargs p =
     (if injection_retrieval_flag then
        (if transit_injector p = None then
           (Inr (), log_msg WARNING
              ''Injection-retrieval requested but transit models not provided - skipping'' p)
         else
           and_then
             (run_injection_retrieval_kw C
                (case injection_retrieval_kwargs kwargs of None \<Rightarrow> no_ir_kwargs | Some kw \<Rightarrow> kw)
                (log_msg INFO ''Step 4: Injection-retrieval testing'' p))
             (\<lambda>inj_ret_results p1.
                (Inr (), p1\<lparr>results := (results p1)(''injection_retrieval'' \<mapsto> inj_ret_results)\<rparr>)))
      else (Inr (), p))"

text \<open>The whole of \<open>run\<close>: step 1 always, then the three steps, then the registry.\<close>

definition run ::
  "('w, 'r, 's) collaborators \<Rightarrow> bool \<Rightarrow> bool \<Rightarrow> bool \<Rightarrow> 's run_kwargs \<Rightarrow> ('w, 'r, 's) pipeline
   \<Rightarrow> (error + (string \<rightharpoonup> 'r list)) \<times> ('w, 'r, 's) pipeline" where
  "run C find_transits_flag vet_candidates_flag injection_retrieval_flag kwargs p =
     and_then
       (mask_eclipses C (case mask_eclipses_kwargs kwargs of None \<Rightarrow> [] | Some kw \<Rightarrow> kw)
          (log_msg INFO ''Step 1: Eclipse masking''
             (log_msg INFO ''Starting mono-cbp pipeline'' p)))
       (\<lambda>_ p1. and_then (transit_finding_step C find_transits_flag kwargs p1)
       (\<lambda>_ p2. and_then (vetting_step C vet_candidates_flag find_transits_flag kwargs p2)
       (\<lambda>_ p3. and_then (injection_step C injection_retrieval_flag kwargs p3)
       (\<lambda>_ p4. let p5 = log_msg INFO ''Pipeline complete'' p4 in (Inr (results p5), p5)))))"

text \<open>The public operations of an instance, and sequences of them.\<close>

datatype 's operation =
    Run bool bool bool "'s run_kwargs"
  | MaskEclipses kwargs
  | FindTransits string "string option" "string option"
  | VetCandidates "'s list option" "string option" string "string option"
  | RunInjectionRetrieval "int option" string "string option"

fun exec_op ::
  "('w, 'r, 's) collaborators \<Rightarrow> 's operation \<Rightarrow> ('w, 'r, 's) pipeline \<Rightarrow> ('w, 'r, 's) pipeline" where
  "exec_op C (Run ft vc ir kw) p = snd (run C ft vc ir kw p)"
| "exec_op C (MaskEclipses kw) p = snd (mask_eclipses C kw p)"
| "exec_op C (FindTransits f od pod) p = snd (find_transits C f od pod p)"
| "exec_op C (VetCandidates es dir f od) p = snd (vet_candidates C es dir f od p)"
| "exec_op C (RunInjectionRetrieval n f od) p = snd (run_injection_retrieval C n f od p)"

fun exec_ops ::
  "('w, 'r, 's) collaborators \<Rightarrow> 's operation list \<Rightarrow> ('w, 'r, 's) pipeline \<Rightarrow> ('w, 'r, 's) pipeline" where
  "exec_ops C [] p = p"
| "exec_ops C (op # ops) p = exec_ops C ops (exec_op C op p)"

section \<open>Notions for stating the properties\<close>

text \<open>Which stage a collaborator call belongs to, and its registry key.\<close>

fun is_masking :: "'s call \<Rightarrow> bool" where
  "is_masking (MaskAll _) = True"
| "is_masking _ = False"

fun is_transit_search :: "'s call \<Rightarrow> bool" where
  "is_transit_search (ProcessDirectory _ _ _ _) = True"
| "is_transit_search _ = False"

fun is_vetting :: "'s call \<Rightarrow> bool" where
  "is_vetting (CompareEvents _ _ _) = True"
| "is_vetting _ = False"

fun is_injection :: "'s call \<Rightarrow> bool" where
  "is_injection (InjectionRetrieval _ _ _ _) = True"
| "is_injection _ = False"

fun stage_key :: "'s call \<Rightarrow> string option" where
  "stage_key (MaskAll _) = None"
| "stage_key (ProcessDirectory _ _ _ _) = Some ''transit_finding''"
| "stage_key (CompareEvents _ _ _) = Some ''vetting''"
| "stage_key (InjectionRetrieval _ _ _ _) = Some ''injection_retrieval''"

fun call_source :: "'s call \<Rightarrow> 's vet_source option" where
  "call_source (CompareEvents src _ _) = Some src"
| "call_source _ = None"

text \<open>The entry of a key in the registry that \<open>run\<close> returned.\<close>

definition registry_entry :: "string \<Rightarrow> error + (string \<rightharpoonup> 'r list) \<Rightarrow> error + 'r list option" where
  "registry_entry k R = (case R of Inl e \<Rightarrow> Inl e | Inr reg \<Rightarrow> Inr (reg k))"

text \<open>
  The first argument of \<open>compare_events\<close> when \<open>run\<close> reaches its vetting
  stage in state \<open>p\<close>, read off lines 135-148 and 215-233.
\<close>

definition vetting_source ::
  "('w, 'r, 's) collaborators \<Rightarrow> 's run_kwargs \<Rightarrow> ('w, 'r, 's) pipeline \<Rightarrow> 's vet_source" where
  "vetting_source C kw p =
     (let vk = (case vet_candidates_kwargs kw of None \<Rightarrow> no_vet_kwargs | Some k \<Rightarrow> k);
          dir = (case vk_event_snippets_dir vk of
                   None \<Rightarrow> os_path_join (output_dir p) ''event_snippets'' | Some d \<Rightarrow> d)
      in case vk_event_snippets vk of
           Some (Some snippets) \<Rightarrow> Snippets snippets
         | Some None \<Rightarrow> SnippetDir dir
         | None \<Rightarrow>
             (case finder_event_snippets C (world p) of
                None \<Rightarrow> SnippetDir dir
              | Some fs \<Rightarrow> if fs = [] then SnippetDir dir else Snippets fs))"

text \<open>
  \<open>extends p cs p'\<close>: from \<open>p\<close> to \<open>p'\<close> the collaborators were called as
  \<open>cs\<close> lists, the fixed attributes are the same, and every registry entry that
  differs is present and belongs to a stage that was called.
\<close>

definition extends ::
  "('w, 'r, 's) pipeline \<Rightarrow> 's call list \<Rightarrow> ('w, 'r, 's) pipeline \<Rightarrow> bool" where
  "extends p cs p' \<longleftrightarrow>
     calls p' = calls p @ cs \<and> transit_injector p' = transit_injector p
     \<and> data_dir p' = data_dir p \<and> output_dir p' = output_dir p
     \<and> config_n_injections p' = config_n_injections p
     \<and> (\<forall>k. results p' k \<noteq> results p k \<longrightarrow>
            results p' k \<noteq> None \<and> list_ex (\<lambda>c. stage_key c = Some k) cs)"

text \<open>
  An instance without a transit injector that holds no \<open>injection_retrieval\<close>
  entry and has made no injector call.
\<close>

definition no_injection :: "('w, 'r, 's) pipeline \<Rightarrow> bool" where
  "no_injection p \<longleftrightarrow>
     transit_injector p = None \<and> results p ''injection_retrieval'' = None
     \<and> \<not> list_ex is_injection (calls p)"

section \<open>Collaborators for the examples\<close>

text \<open>
  A masker that succeeds, a finder that returns two events and then holds two snippets
  in memory, a comparator that returns the snippets (or the directory) it was given, and
  an injector. The world is the number of transit searches made.
\<close>

definition demo :: "(nat, string, string) collaborators" where
  "demo = \<lparr>mask_all = (\<lambda>kw w. (None, w)),
           process_directory = (\<lambda>dd f od pod w. (Inr [''event-1'', ''event-2''], Suc w)),
           finder_event_snippets = (\<lambda>w. if w = 0 then None else Some [''snippet-1'', ''snippet-2'']),
           compare_events =
             (\<lambda>src f od w. (Inr (case src of Snippets sn \<Rightarrow> sn | SnippetDir d \<Rightarrow> [d]), w)),
           injector_run = (\<lambda>dd n f od w. (Inr [''injection-1''], w))\<rparr>"

definition demo_init :: "(nat, string, string) pipeline" where
  "demo_init = init ''./data'' ''./results'' None 100 True 3 0"

definition demo_after_full_run :: "(nat, string, string) pipeline" where
  "demo_after_full_run = snd (run demo True True False no_run_kwargs demo_init)"

definition demo_after_search :: "(nat, string, string) pipeline" where
  "demo_after_search = snd (find_transits demo ''transit_events.txt'' None None demo_init)"

text \<open>The same collaborators with a finder that keeps no snippets in memory.\<close>

definition demo_no_snippets :: "(nat, string, string) collaborators" where
  "demo_no_snippets = demo\<lparr>finder_event_snippets := (\<lambda>w. Some [])\<rparr>"

definition own_snippets_kwargs :: "string run_kwargs" where
  "own_snippets_kwargs =
     no_run_kwargs\<lparr>vet_candidates_kwargs :=
       Some (no_vet_kwargs\<lparr>vk_event_snippets := Some (Some [''own-snippet''])\<rparr>)\<rparr>"

section \<open>Facts about masks\<close>

lemma assign_true_in_range:
  "\<forall>i \<in> set idx. i < length msk \<Longrightarrow>
   assign_true msk idx = Inr (map (\<lambda>j. msk ! j \<or> j \<in> set idx) [0..<length msk])"
proof (induction idx arbitrary: msk)
  case Nil
  show ?case by (simp add: map_nth)
next
  case (Cons i idx)
  from Cons.prems have i: "i < length msk" and rest: "\<forall>k \<in> set idx. k < length (msk[i := True])"
    by simp_all
  have "assign_true (msk[i := True]) idx =
        Inr (map (\<lambda>j. (msk[i := True]) ! j \<or> j \<in> set idx) [0..<length (msk[i := True])])"
    by (rule Cons.IH [OF rest])
  also have "map (\<lambda>j. (msk[i := True]) ! j \<or> j \<in> set idx) [0..<length (msk[i := True])] =
             map (\<lambda>j. msk ! j \<or> j \<in> set (i # idx)) [0..<length msk]"
    using i by (auto simp: nth_list_update split: if_splits)
  finally show ?case using i by simp
qed

lemma np_where_map:
  "np_where (map P xs) = filter (\<lambda>i. P (xs ! i)) [0..<length xs]"
  unfolding np_where_def by (rule filter_cong) simp_all

lemma mask_of_np_where:
  "assign_true (replicate (length xs) False) (np_where (map P xs)) = Inr (map P xs)"
proof -
  let ?idx = "np_where (map P xs)"
  have in_range: "\<forall>i \<in> set ?idx. i < length (replicate (length xs) False)"
    by (simp add: np_where_map)
  have "assign_true (replicate (length xs) False) ?idx =
        Inr (map (\<lambda>j. replicate (length xs) False ! j \<or> j \<in> set ?idx)
               [0..<length (replicate (length xs) False)])"
    by (rule assign_true_in_range [OF in_range])
  also have "map (\<lambda>j. replicate (length xs) False ! j \<or> j \<in> set ?idx)
               [0..<length (replicate (length xs) False)] = map P xs"
    by (rule nth_equalityI) (simp_all add: np_where_map)
  finally show ?thesis .
qed

lemma get_eclipse_mask_indices:
  "get_eclipse_indices phases pos width = np_where (map P phases) \<Longrightarrow>
   get_eclipse_mask phases pos width = Inr (map P phases)"
  by (simp add: get_eclipse_mask_def mask_of_np_where)

section \<open>Facts about rounding\<close>

text \<open>
  \<open>floor_log2\<close> is the binary exponent, \<open>rne\<close> picks the nearest integer, and
  so \<open>round64\<close> is rounding to nearest, ties to even, at the precision of the
  exponent: these characterisations evaluate the model on concrete numbers.
\<close>

lemma floor_log2_bounds:
  assumes "0 < x"
  shows "2 powi floor_log2 x \<le> x \<and> x < 2 powi (floor_log2 x + 1)"
proof -
  obtain a b where q: "quotient_of x = (a, b)" by (cases "quotient_of x") auto
  then have b: "0 < b" using quotient_of_denom_pos by blast
  have x: "x = of_int a / of_int b" using q by (rule quotient_of_div)
  have a: "0 < a" using assms b x by (simp add: zero_less_divide_iff)
  define la where "la = bitlen a"
  define lb where "lb = bitlen b"
  have "la \<noteq> 0" using a by (simp add: la_def bitlen_eq_zero_iff)
  then have la: "0 < la" using bitlen_nonneg [of a] by (simp add: la_def)
  have "lb \<noteq> 0" using b by (simp add: lb_def bitlen_eq_zero_iff)
  then have lb: "0 < lb" using bitlen_nonneg [of b] by (simp add: lb_def)
  have pw: "(2::rat) ^ nat k = 2 powi k" if "0 \<le> k" for k
    using that by (simp add: power_int_def)
  have "of_int a < (of_int (2 ^ nat la) :: rat)"
    using bitlen_bounds [OF a] unfolding la_def of_int_less_iff by simp
  then have a_hi: "of_int a < (2::rat) powi la" using la by (simp add: pw)
  have "(of_int (2 ^ nat (la - 1)) :: rat) \<le> of_int a"
    using bitlen_bounds [OF a] unfolding la_def of_int_le_iff by simp
  then have a_lo: "(2::rat) powi (la - 1) \<le> of_int a" using la by (simp add: pw)
  have "of_int b < (of_int (2 ^ nat lb) :: rat)"
    using bitlen_bounds [OF b] unfolding lb_def of_int_less_iff by simp
  then have b_hi: "of_int b < (2::rat) powi lb" using lb by (simp add: pw)
  have "(of_int (2 ^ nat (lb - 1)) :: rat) \<le> of_int b"
    using bitlen_bounds [OF b] unfolding lb_def of_int_le_iff by simp
  then have b_lo: "(2::rat) powi (lb - 1) \<le> of_int b" using lb by (simp add: pw)
  have bpos: "(0::rat) < of_int b" using b by simp
  have p1: "(0::rat) < 2 powi (lb - 1)" by simp
  have "x * of_int b < 2 powi la" using a_hi bpos by (simp add: x)
  moreover have "x * 2 powi (lb - 1) \<le> x * of_int b"
    using b_lo assms by (simp add: mult_left_mono)
  ultimately have "x * 2 powi (lb - 1) < 2 powi la" by linarith
  then have "x < 2 powi la / 2 powi (lb - 1)" using p1 by (simp add: pos_less_divide_eq)
  then have hi: "x < 2 powi (la - lb + 1)"
    by (simp add: power_int_diff [symmetric] algebra_simps)
  have "2 powi (la - 1) \<le> x * of_int b" using a_lo bpos by (simp add: x)
  moreover have "x * of_int b < x * 2 powi lb"
    using b_hi assms by (simp add: mult_strict_left_mono)
  ultimately have "2 powi (la - 1) < x * 2 powi lb" by linarith
  then have "2 powi (la - 1) / 2 powi lb < x" by (simp add: pos_divide_less_eq)
  then have lo: "2 powi (la - lb - 1) < x"
    by (simp add: power_int_diff [symmetric] algebra_simps)
  have fl: "floor_log2 x = (if 2 powi (la - lb) \<le> x then la - lb else la - lb - 1)"
    by (simp add: floor_log2_def q la_def lb_def Let_def)
  show ?thesis
  proof (cases "2 powi (la - lb) \<le> x")
    case True
    then show ?thesis using hi by (simp add: fl)
  next
    case False
    then show ?thesis using lo by (simp add: fl)
  qed
qed

lemma floor_log2_unique:
  assumes "2 powi e \<le> x" and "x < 2 powi (e + 1)"
  shows "floor_log2 x = e"
proof -
  have "(0::rat) < 2 powi e" by simp
  then have pos: "0 < x" using assms(1) by linarith
  note b = floor_log2_bounds [OF pos]
  have "\<not> e + 1 \<le> floor_log2 x"
  proof
    assume "e + 1 \<le> floor_log2 x"
    then have "(2::rat) powi (e + 1) \<le> 2 powi floor_log2 x"
      by (rule power_int_increasing) simp
    then show False using b assms(2) by linarith
  qed
  moreover have "\<not> floor_log2 x + 1 \<le> e"
  proof
    assume "floor_log2 x + 1 \<le> e"
    then have "(2::rat) powi (floor_log2 x + 1) \<le> 2 powi e"
      by (rule power_int_increasing) simp
    then show False using b assms(1) by linarith
  qed
  ultimately show ?thesis by linarith
qed

lemma rne_eqI:
  assumes "\<bar>q - of_int n\<bar> < 1 / 2 \<or> (\<bar>q - of_int n\<bar> = 1 / 2 \<and> even n)"
  shows "rne q = n"
proof -
  have fl: "\<lfloor>q\<rfloor> = n \<or> \<lfloor>q\<rfloor> = n - 1" using assms by linarith
  show ?thesis
  proof (cases "\<lfloor>q\<rfloor> = n")
    case True
    have "0 \<le> q - of_int n" using True by linarith
    then show ?thesis using assms True by (auto simp: rne_def Let_def)
  next
    case False
    then have f: "\<lfloor>q\<rfloor> = n - 1" using fl by simp
    have "q - of_int n < 0" using f by linarith
    then have d: "q - of_int (n - 1) = 1 - \<bar>q - of_int n\<bar>" by simp
    show ?thesis using assms unfolding rne_def Let_def f d by auto
  qed
qed

lemma round64_eqI:
  assumes e: "2 powi e \<le> \<bar>x\<bar>" "\<bar>x\<bar> < 2 powi (e + 1)"
    and u: "u = max (e - 52) (- 1074)"
    and n: "\<bar>x / 2 powi u - of_int n\<bar> < 1 / 2 \<or> (\<bar>x / 2 powi u - of_int n\<bar> = 1 / 2 \<and> even n)"
    and r: "r = of_int n * 2 powi u"
    and fin: "\<bar>r\<bar> < 2 powi 1024"
  shows "round64 x = Fin r"
proof -
  have "(0::rat) < 2 powi e" by simp
  then have "0 < \<bar>x\<bar>" using e(1) by linarith
  then have nz: "x \<noteq> 0" by simp
  have fl: "floor_log2 \<bar>x\<bar> = e" using e by (rule floor_log2_unique)
  have rn: "rne (x / 2 powi u) = n" using n by (rule rne_eqI)
  show ?thesis
    using nz fin by (simp add: round64_def nearest_def quantum_def fl u [symmetric] rn r [symmetric])
qed

lemma round64_zero: "round64 0 = Fin 0"
  by (simp add: round64_def)

lemma rne_nonneg: "0 \<le> q \<Longrightarrow> 0 \<le> rne q"
  by (auto simp: rne_def Let_def)

lemma rne_le_int:
  assumes "q \<le> of_int N"
  shows "rne q \<le> N"
proof -
  have fl: "\<lfloor>q\<rfloor> \<le> N" using assms by (simp add: floor_le_iff)
  show ?thesis
  proof (cases "\<lfloor>q\<rfloor> = N")
    case True
    then have "q - of_int \<lfloor>q\<rfloor> \<le> 0" using assms by simp
    then have "q - of_int \<lfloor>q\<rfloor> < 1 / 2" by linarith
    then show ?thesis using True by (simp add: rne_def Let_def)
  next
    case False
    then have "\<lfloor>q\<rfloor> + 1 \<le> N" using fl by linarith
    then show ?thesis using fl by (auto simp: rne_def Let_def)
  qed
qed

lemma floor_log2_le_0:
  assumes "0 < x" and "x \<le> 1"
  shows "floor_log2 x \<le> 0"
proof -
  obtain a b where q: "quotient_of x = (a, b)" by (cases "quotient_of x") auto
  then have b: "0 < b" using quotient_of_denom_pos by blast
  have x: "x = of_int a / of_int b" using q by (rule quotient_of_div)
  have a: "0 < a" using assms(1) b x by (simp add: zero_less_divide_iff)
  have "a \<le> b" using assms(2) b x by (simp add: divide_le_eq)
  then have "bitlen a \<le> bitlen b"
    unfolding bitlen_def using a by (intro zle_int [THEN iffD2] floorlog_mono) simp
  then show ?thesis using q by (auto simp: floor_log2_def Let_def)
qed

text \<open>Rounding keeps a number of the closed unit interval inside it.\<close>

lemma round64_unit_interval:
  assumes "0 \<le> x" and "x \<le> 1"
  shows "\<exists>y. round64 x = Fin y \<and> 0 \<le> y \<and> y \<le> 1"
proof (cases "x = 0")
  case True
  then show ?thesis by (simp add: round64_def)
next
  case False
  then have pos: "0 < x" using assms(1) by simp
  define u where "u = max (floor_log2 \<bar>x\<bar> - 52) (- 1074)"
  define N where "N = (2::int) ^ nat (- u)"
  define r where "r = (of_int (rne (x / 2 powi u)) :: rat) * 2 powi u"
  have "floor_log2 \<bar>x\<bar> \<le> 0" using floor_log2_le_0 [of x] pos assms(2) by simp
  then have u: "u \<le> 0" by (simp add: u_def)
  have pw: "(2::rat) powi u = 1 / of_int N"
    using u by (simp add: N_def power_int_def field_simps)
  have Npos: "0 < N" by (simp add: N_def)
  have q: "x / 2 powi u = x * of_int N" by (simp add: pw)
  have "x * of_int N \<le> of_int N" using assms(2) Npos by (simp add: mult_le_cancel_right1)
  then have hi: "rne (x / 2 powi u) \<le> N" unfolding q by (rule rne_le_int)
  have "0 \<le> x * of_int N" using assms(1) Npos by simp
  then have lo: "0 \<le> rne (x / 2 powi u)" unfolding q by (rule rne_nonneg)
  have r0: "0 \<le> r" using lo Npos by (simp add: r_def pw)
  have "of_int (rne (x / 2 powi u)) \<le> (of_int N :: rat)" using hi by simp
  then have r1: "r \<le> 1" using Npos by (simp add: r_def pw divide_le_eq)
  have "\<not> 2 powi 1024 \<le> \<bar>r\<bar>" using r0 r1 by (simp add: power_int_def)
  then have "round64 x = Fin r"
    using False by (simp add: round64_def nearest_def quantum_def u_def [symmetric] r_def [symmetric])
  with r0 r1 show ?thesis by blast
qed

lemma rne_of_int: "rne (of_int k) = k"
  by (simp add: rne_def)

lemma rne_mono:
  assumes "q \<le> q'"
  shows "rne q \<le> rne q'"
proof -
  have fl: "\<lfloor>q\<rfloor> \<le> \<lfloor>q'\<rfloor>" using assms by (rule floor_mono)
  have lo: "\<lfloor>q'\<rfloor> \<le> rne q'" by (simp add: rne_def Let_def)
  have hi: "rne q \<le> \<lfloor>q\<rfloor> + 1" by (simp add: rne_def Let_def)
  show ?thesis
  proof (cases "\<lfloor>q\<rfloor> = \<lfloor>q'\<rfloor>")
    case True
    have "q - of_int \<lfloor>q\<rfloor> \<le> q' - of_int \<lfloor>q'\<rfloor>" using assms True by simp
    then show ?thesis unfolding rne_def Let_def True by auto
  next
    case False
    then have "\<lfloor>q\<rfloor> + 1 \<le> \<lfloor>q'\<rfloor>" using fl by linarith
    then show ?thesis using lo hi by linarith
  qed
qed

lemma rne_minus: "rne (- q) = - rne q"
proof (cases "q = of_int \<lfloor>q\<rfloor>")
  case True
  then obtain k where "q = of_int k" ..
  then have "- q = of_int (- k)" by simp
  then show ?thesis unfolding \<open>q = of_int k\<close> by (simp only: rne_of_int)
next
  case False
  then have lt: "of_int \<lfloor>q\<rfloor> < q" by (metis floor_less_cancel floor_of_int not_less of_int_floor_le order.not_eq_order_implies_strict)
  have u: "q < of_int \<lfloor>q\<rfloor> + 1" by linarith
  have fm: "\<lfloor>- q\<rfloor> = - \<lfloor>q\<rfloor> - 1"
    using lt u by (intro floor_unique) simp_all
  have d: "- q - of_int (- \<lfloor>q\<rfloor> - 1) = 1 - (q - of_int \<lfloor>q\<rfloor>)" by simp
  show ?thesis unfolding rne_def Let_def fm d by auto
qed

lemma floor_log2_mono:
  assumes "0 < x" and "x \<le> y"
  shows "floor_log2 x \<le> floor_log2 y"
proof (rule ccontr)
  assume "\<not> floor_log2 x \<le> floor_log2 y"
  then have "floor_log2 y + 1 \<le> floor_log2 x" by simp
  then have "(2::rat) powi (floor_log2 y + 1) \<le> 2 powi floor_log2 x"
    by (rule power_int_increasing) simp
  moreover have "y < 2 powi (floor_log2 y + 1)"
    using floor_log2_bounds [of y] assms by simp
  moreover have "2 powi floor_log2 x \<le> x"
    using floor_log2_bounds [of x] assms by simp
  ultimately show False using assms(2) by linarith
qed

lemma quantum_mono:
  assumes "0 < x" and "x \<le> y"
  shows "quantum x \<le> quantum y"
  using floor_log2_mono [OF assms] assms by (simp add: quantum_def)

lemma quantum_minus: "quantum (- x) = quantum x"
  by (simp add: quantum_def)

lemma nearest_minus: "nearest (- x) = - nearest x"
  by (simp add: nearest_def quantum_minus rne_minus)

lemma nearest_nonneg: "0 \<le> x \<Longrightarrow> 0 \<le> nearest x"
  by (simp add: nearest_def rne_nonneg)

text \<open>A power of two above the quantum is on the grid, so rounding cannot cross it.\<close>

lemma pow_on_grid:
  assumes "u \<le> j"
  shows "(2::rat) powi j / 2 powi u = of_int (2 ^ nat (j - u))"
proof -
  have "(2::rat) powi j / 2 powi u = 2 powi (j - u)" by (simp add: power_int_diff)
  also have "\<dots> = 2 ^ nat (j - u)" using assms by (simp add: power_int_def)
  finally show ?thesis by simp
qed

lemma nearest_le_pow:
  assumes "x \<le> 2 powi j" and "quantum x \<le> j"
  shows "nearest x \<le> 2 powi j"
proof -
  define u where "u = quantum x"
  have p: "(0::rat) < 2 powi u" by simp
  have "x / 2 powi u \<le> 2 powi j / 2 powi u" using assms(1) p by (simp add: divide_right_mono)
  then have "rne (x / 2 powi u) \<le> rne (2 powi j / 2 powi u)" by (rule rne_mono)
  also have "\<dots> = 2 ^ nat (j - u)"
    using assms(2) unfolding u_def [symmetric] by (simp only: pow_on_grid rne_of_int)
  finally have "(of_int (rne (x / 2 powi u)) :: rat) \<le> of_int (2 ^ nat (j - u))"
    by (simp only: of_int_le_iff)
  then have "of_int (rne (x / 2 powi u)) * 2 powi u \<le> of_int (2 ^ nat (j - u)) * (2::rat) powi u"
    using p by (simp only: mult_le_cancel_right_pos)
  also have "of_int (2 ^ nat (j - u)) * (2::rat) powi u = 2 powi j"
    using pow_on_grid [of u j] assms(2) unfolding u_def [symmetric] by (simp add: field_simps)
  finally show ?thesis by (simp add: nearest_def u_def)
qed

lemma pow_le_nearest:
  assumes "2 powi j \<le> x" and "quantum x \<le> j"
  shows "2 powi j \<le> nearest x"
proof -
  define u where "u = quantum x"
  have p: "(0::rat) < 2 powi u" by simp
  have "2 powi j / 2 powi u \<le> x / 2 powi u" using assms(1) p by (simp add: divide_right_mono)
  then have "rne (2 powi j / 2 powi u) \<le> rne (x / 2 powi u)" by (rule rne_mono)
  moreover have "rne ((2::rat) powi j / 2 powi u) = 2 ^ nat (j - u)"
    using assms(2) unfolding u_def [symmetric] by (simp only: pow_on_grid rne_of_int)
  ultimately have le: "(of_int (2 ^ nat (j - u)) :: rat) \<le> of_int (rne (x / 2 powi u))"
    by (simp only: of_int_le_iff)
  have "(2::rat) powi j = of_int (2 ^ nat (j - u)) * 2 powi u"
    using pow_on_grid [of u j] assms(2) unfolding u_def [symmetric] by (simp add: field_simps)
  also have "\<dots> \<le> of_int (rne (x / 2 powi u)) * 2 powi u"
    using le p by (simp only: mult_le_cancel_right_pos)
  finally show ?thesis by (simp add: nearest_def u_def)
qed

lemma nearest_mono_pos:
  assumes "0 < x" and "x \<le> y"
  shows "nearest x \<le> nearest y"
proof (cases "quantum x = quantum y")
  case True
  have p: "(0::rat) < 2 powi quantum y" by simp
  have "x / 2 powi quantum y \<le> y / 2 powi quantum y" using assms(2) p by (simp add: divide_right_mono)
  then have "rne (x / 2 powi quantum y) \<le> rne (y / 2 powi quantum y)" by (rule rne_mono)
  then have "(of_int (rne (x / 2 powi quantum y)) :: rat) \<le> of_int (rne (y / 2 powi quantum y))"
    by (simp only: of_int_le_iff)
  then show ?thesis using p unfolding nearest_def True by (simp only: mult_le_cancel_right_pos)
next
  case False
  have ypos: "0 < y" using assms by linarith
  have lt: "quantum x < quantum y" using quantum_mono [OF assms] False by linarith
  have "- 1074 \<le> quantum x" by (simp add: quantum_def)
  then have qy: "quantum y = floor_log2 y - 52" using lt ypos by (simp add: quantum_def max_def split: if_splits)
  have ex: "floor_log2 x < floor_log2 y"
    using lt assms ypos by (simp add: quantum_def max_def split: if_splits)
  define j where "j = floor_log2 y"
  have "x < 2 powi (floor_log2 x + 1)" using floor_log2_bounds [OF assms(1)] by simp
  also have "\<dots> \<le> 2 powi j" unfolding j_def using ex by (intro power_int_increasing) simp_all
  finally have xj: "x \<le> 2 powi j" by simp
  have jy: "2 powi j \<le> y" unfolding j_def using floor_log2_bounds [OF ypos] by simp
  have "nearest x \<le> 2 powi j" using xj lt qy by (intro nearest_le_pow) (simp_all add: j_def)
  moreover have "2 powi j \<le> nearest y" using jy qy by (intro pow_le_nearest) (simp_all add: j_def)
  ultimately show ?thesis by linarith
qed

lemma nearest_zero: "nearest 0 = 0"
  by (simp add: nearest_def rne_def)

lemma nearest_mono:
  assumes "x \<le> y"
  shows "nearest x \<le> nearest y"
proof -
  consider "0 < x" | "y < 0" | "x \<le> 0" "0 \<le> y" by linarith
  then show ?thesis
  proof cases
    case 1
    then show ?thesis using assms by (rule nearest_mono_pos)
  next
    case 2
    then have "nearest (- y) \<le> nearest (- x)" using assms by (intro nearest_mono_pos) simp_all
    then show ?thesis by (simp add: nearest_minus)
  next
    case 3
    have "0 \<le> nearest (- x)" using 3(1) by (intro nearest_nonneg) simp
    then have "nearest x \<le> 0" by (simp add: nearest_minus)
    moreover have "0 \<le> nearest y" using 3(2) by (rule nearest_nonneg)
    ultimately show ?thesis by linarith
  qed
qed

text \<open>Rounding is monotone, infinities included.\<close>

lemma round64_mono:
  assumes "x \<le> y"
  shows "f_le (round64 x) (round64 y)"
proof -
  note n = nearest_mono [OF assms]
  have sx: "0 \<le> nearest x" if "0 \<le> x" using that by (rule nearest_nonneg)
  have sy: "0 \<le> nearest y" if "0 \<le> y" using that by (rule nearest_nonneg)
  have nx: "nearest x \<le> 0" if "x \<le> 0"
    using nearest_nonneg [of "- x"] that by (simp add: nearest_minus)
  have ny: "nearest y \<le> 0" if "y \<le> 0"
    using nearest_nonneg [of "- y"] that by (simp add: nearest_minus)
  have big: "(0::rat) < 2 powi 1024" by simp
  consider "x = 0" "y = 0" | "x = 0" "0 < y" | "x < 0" "y = 0" | "x < 0" "0 < y"
    | "0 < x" "0 < y" | "x < 0" "y < 0"
    using assms by linarith
  then show ?thesis
  proof cases
    case 1
    then show ?thesis by (simp add: round64_def f_le_def)
  next
    case 2
    then show ?thesis using sy by (auto simp: round64_def f_le_def)
  next
    case 3
    then show ?thesis using nx by (auto simp: round64_def f_le_def)
  next
    case 4
    then have "nearest x \<le> 0" "0 \<le> nearest y" using nx sy by simp_all
    then show ?thesis using 4 by (auto simp: round64_def f_le_def)
  next
    case 5
    then have "0 \<le> nearest x" "0 \<le> nearest y" using sx sy by simp_all
    then show ?thesis using 5 n by (auto simp: round64_def f_le_def)
  next
    case 6
    then have "nearest x \<le> 0" "nearest y \<le> 0" using nx ny by simp_all
    then show ?thesis using 6 n by (auto simp: round64_def f_le_def)
  qed
qed

lemma nearest_on_grid:
  assumes "quantum r \<le> u" and "r = of_int n * 2 powi u"
  shows "nearest r = r"
proof -
  define v where "v = quantum r"
  have "(2::rat) powi u / 2 powi v = of_int (2 ^ nat (u - v))"
    using assms(1) unfolding v_def by (rule pow_on_grid)
  then have "of_int n * ((2::rat) powi u / 2 powi v) = of_int (n * 2 ^ nat (u - v))"
    by (simp only: of_int_mult)
  moreover have "r / 2 powi v = of_int n * ((2::rat) powi u / 2 powi v)"
    by (simp add: assms(2))
  ultimately have "r / 2 powi v = of_int (n * 2 ^ nat (u - v))" by (simp only:)
  then have "rne (r / 2 powi v) = n * 2 ^ nat (u - v)" by (simp only: rne_of_int)
  then have "nearest r = of_int (n * 2 ^ nat (u - v)) * 2 powi v"
    by (simp add: nearest_def v_def)
  also have "\<dots> = of_int n * ((2::rat) powi u / 2 powi v) * 2 powi v"
    using pow_on_grid [of v u] assms(1) by (simp add: v_def)
  also have "\<dots> = r" by (simp add: assms(2))
  finally show ?thesis .
qed

lemma nearest_idem_pos:
  assumes "0 < x"
  shows "nearest (nearest x) = nearest x"
proof -
  define u where "u = quantum x"
  define n where "n = rne (x / 2 powi u)"
  define r where "r = nearest x"
  have r: "r = of_int n * 2 powi u" by (simp add: r_def nearest_def u_def n_def)
  have u: "- 1074 \<le> u" "floor_log2 x - 52 \<le> u" using assms by (simp_all add: u_def quantum_def)
  have "x < 2 powi (floor_log2 x + 1)" using floor_log2_bounds [OF assms] by simp
  also have "\<dots> \<le> 2 powi (u + 53)" using u(2) by (intro power_int_increasing) simp_all
  finally have "x \<le> 2 powi (u + 53)" by simp
  then have hi: "r \<le> 2 powi (u + 53)"
    unfolding r_def by (rule nearest_le_pow) (simp add: u_def)
  have nonneg: "0 \<le> r" unfolding r_def using assms by (intro nearest_nonneg) simp
  consider "r = 0" | "0 < r" "r < 2 powi (u + 53)" | "r = 2 powi (u + 53)"
    using hi nonneg by linarith
  then have "nearest r = r"
  proof cases
    case 1
    then show ?thesis by (simp add: nearest_zero)
  next
    case 2
    have "\<not> u + 53 \<le> floor_log2 r"
    proof
      assume "u + 53 \<le> floor_log2 r"
      then have "(2::rat) powi (u + 53) \<le> 2 powi floor_log2 r"
        by (rule power_int_increasing) simp
      then show False using floor_log2_bounds [OF 2(1)] 2(2) by linarith
    qed
    then have "quantum r \<le> u" using u(1) 2(1) by (simp add: quantum_def)
    then show ?thesis using r by (rule nearest_on_grid)
  next
    case 3
    have "floor_log2 r = u + 53"
      unfolding 3 by (rule floor_log2_unique) (simp_all add: power_int_strict_increasing)
    moreover have "0 < r" unfolding 3 by simp
    ultimately have q: "quantum r \<le> u + 1" using u(1) by (simp add: quantum_def)
    have "(2::rat) powi (u + 53) / 2 powi (u + 1) = of_int (2 ^ nat (u + 53 - (u + 1)))"
      by (rule pow_on_grid) simp
    then have "r = of_int (2 ^ 52) * 2 powi (u + 1)" unfolding 3 by (simp add: field_simps)
    with q show ?thesis by (rule nearest_on_grid)
  qed
  then show ?thesis by (simp add: r_def)
qed

lemma nearest_idem: "nearest (nearest x) = nearest x"
proof -
  consider "x = 0" | "0 < x" | "x < 0" by linarith
  then show ?thesis
  proof cases
    case 1
    then show ?thesis by (simp add: nearest_zero)
  next
    case 2
    then show ?thesis by (rule nearest_idem_pos)
  next
    case 3
    then have "nearest (nearest (- x)) = nearest (- x)" by (intro nearest_idem_pos) simp
    then show ?thesis by (simp add: nearest_minus)
  qed
qed

text \<open>A double rounds to itself.\<close>

lemma round64_idem:
  assumes "round64 x = Fin r"
  shows "round64 r = Fin r"
proof (cases "x = 0")
  case True
  then show ?thesis using assms by (auto simp: round64_zero)
next
  case False
  then have r: "r = nearest x" and fin: "\<not> 2 powi 1024 \<le> \<bar>nearest x\<bar>"
    using assms by (auto simp: round64_def split: if_splits)
  have "nearest r = r" unfolding r by (rule nearest_idem)
  then show ?thesis using fin r by (simp add: round64_def)
qed

text \<open>
  The remainder modulo \<open>1.0\<close> of a finite number is a finite number of the closed
  unit interval.
\<close>

lemma np_mod_one:
  assumes "f_fmod a (Fin 1) = Fin r"
  shows "np_mod a (Fin 1) = (if r = 0 then Fin 0 else if r < 0 then round64 (r + 1) else Fin r)"
  by (simp add: np_mod_def assms)

lemma np_mod_one_range:
  "\<exists>m. np_mod (Fin q) (Fin 1) = Fin m \<and> 0 \<le> m \<and> m \<le> 1"
proof (cases "0 \<le> q")
  case True
  define r where "r = q - of_int \<lfloor>q\<rfloor>"
  have r: "0 \<le> r" "r < 1" unfolding r_def by linarith+
  have fm: "f_fmod (Fin q) (Fin 1) = Fin r" using True by (simp add: r_def)
  have "np_mod (Fin q) (Fin 1) = (if r = 0 then Fin 0 else Fin r)"
    unfolding np_mod_one [OF fm] using r(1) by simp
  then show ?thesis using r by simp
next
  case False
  define r where "r = q - of_int \<lceil>q\<rceil>"
  have r: "r \<le> 0" "- 1 < r" unfolding r_def by linarith+
  have fm: "f_fmod (Fin q) (Fin 1) = Fin r" using False by (simp add: r_def)
  have nm: "np_mod (Fin q) (Fin 1) = (if r = 0 then Fin 0 else round64 (r + 1))"
    unfolding np_mod_one [OF fm] using r(1) by simp
  have "\<exists>y. round64 (r + 1) = Fin y \<and> 0 \<le> y \<and> y \<le> 1"
    using r by (intro round64_unit_interval) simp_all
  then show ?thesis unfolding nm by simp
qed

text \<open>Overflow: the nearest multiple of the quantum is at or beyond \<open>2^1024\<close>.\<close>

lemma round64_overflowI:
  assumes e: "2 powi e \<le> \<bar>x\<bar>" "\<bar>x\<bar> < 2 powi (e + 1)"
    and u: "u = max (e - 52) (- 1074)"
    and n: "\<bar>x / 2 powi u - of_int n\<bar> < 1 / 2 \<or> (\<bar>x / 2 powi u - of_int n\<bar> = 1 / 2 \<and> even n)"
    and big: "2 powi 1024 \<le> \<bar>of_int n * 2 powi u :: rat\<bar>"
    and pos: "0 < x"
  shows "round64 x = PInf"
proof -
  have fl: "floor_log2 \<bar>x\<bar> = e" using e by (rule floor_log2_unique)
  have rn: "rne (x / 2 powi u) = n" using n by (rule rne_eqI)
  have "(0::rat) < 2 powi 1024" by simp
  then have "of_int n * (2::rat) powi u \<noteq> 0" using big by auto
  then have nz: "x \<noteq> 0" using rn by (auto simp: rne_def)
  show ?thesis
    unfolding round64_def nearest_def quantum_def fl u [symmetric] rn
    using nz pos big by (simp only: if_True if_False)
qed

lemma double_overflow: "round64 (2 ^ 1074) = PInf"
  by (rule round64_overflowI [where e = 1074 and u = 1022 and n = "2 ^ 52"];
      simp add: power_int_def)

lemma tiny_period_overflow: "f_div (Fin 1) (Fin (1 / 2 ^ 1074)) = PInf"
proof -
  have a: "(1::rat) / (1 / 2 ^ 1074) = 2 ^ 1074" by simp
  have b: "((1::rat) / 2 ^ 1074 = 0) = False" by simp
  show ?thesis by (simp only: f_div.simps a b if_False double_overflow)
qed

section \<open>The doubles of the examples\<close>

text \<open>
  The roundings that the examples below go through: decimal literals such as
  \<open>0.99\<close>, and the sums and differences of doubles computed from them.
\<close>

lemma double_1: "round64 (1 / 50) = Fin (5764607523034235 / 288230376151711744)"
  by (rule round64_eqI [where e = "- 6" and u = "- 58" and n = 5764607523034235];
      simp add: power_int_def power_one_over)

lemma double_2: "round64 (1 / 2) = Fin (1 / 2)"
  by (rule round64_eqI [where e = "- 1" and u = "- 53" and n = 4503599627370496];
      simp add: power_int_def power_one_over)

lemma double_3: "round64 (99 / 100) = Fin (4458563631096791 / 4503599627370496)"
  by (rule round64_eqI [where e = "- 1" and u = "- 53" and n = 8917127262193582];
      simp add: power_int_def power_one_over)

lemma double_4: "round64 (1 / 10) = Fin (3602879701896397 / 36028797018963968)"
  by (rule round64_eqI [where e = "- 4" and u = "- 56" and n = 7205759403792794];
      simp add: power_int_def power_one_over)

lemma double_5: "round64 (3602879701896397 / 72057594037927936) = Fin (3602879701896397 / 72057594037927936)"
  by (rule round64_eqI [where e = "- 5" and u = "- 57" and n = 7205759403792794];
      simp add: power_int_def power_one_over)

lemma double_6: "round64 (67734138395652259 / 72057594037927936) = Fin (2116691824864133 / 2251799813685248)"
  by (rule round64_eqI [where e = "- 1" and u = "- 53" and n = 8466767299456532];
      simp add: power_int_def power_one_over)

lemma double_7: "round64 (74939897799445053 / 72057594037927936) = Fin (1170935903116329 / 1125899906842624)"
  by (rule round64_eqI [where e = 0 and u = "- 52" and n = 4683743612465316];
      simp add: power_int_def power_one_over)

lemma double_8: "round64 (19 / 20) = Fin (4278419646001971 / 4503599627370496)"
  by (rule round64_eqI [where e = "- 1" and u = "- 53" and n = 8556839292003942];
      simp add: power_int_def power_one_over)

lemma double_9: "round64 (45035996273705 / 1125899906842624) = Fin (45035996273705 / 1125899906842624)"
  by (rule round64_eqI [where e = "- 5" and u = "- 57" and n = 5764607523034240];
      simp add: power_int_def power_one_over)

lemma double_10: "round64 (97 / 100) = Fin (4368491638549381 / 4503599627370496)"
  by (rule round64_eqI [where e = "- 1" and u = "- 53" and n = 8736983277098762];
      simp add: power_int_def power_one_over)

lemma double_11: "round64 (49 / 50) = Fin (2206763817411543 / 2251799813685248)"
  by (rule round64_eqI [where e = "- 1" and u = "- 53" and n = 8827055269646172];
      simp add: power_int_def power_one_over)

lemma double_12: "round64 (1 / 100) = Fin (5764607523034235 / 576460752303423488)"
  by (rule round64_eqI [where e = "- 7" and u = "- 59" and n = 5764607523034235];
      simp add: power_int_def power_one_over)

lemma double_13: "round64 (- (23058430092136941 / 576460752303423488)) = Fin (- (5764607523034235 / 144115188075855872))"
  by (rule round64_eqI [where e = "- 5" and u = "- 57" and n = "- 5764607523034235"];
      simp add: power_int_def power_one_over)

lemma double_14: "round64 (34587645138205411 / 576460752303423488) = Fin (8646911284551353 / 144115188075855872)"
  by (rule round64_eqI [where e = "- 5" and u = "- 57" and n = 8646911284551353];
      simp add: power_int_def power_one_over)

lemma double_15: "round64 (1 / 20) = Fin (3602879701896397 / 72057594037927936)"
  by (rule round64_eqI [where e = "- 5" and u = "- 57" and n = 7205759403792794];
      simp add: power_int_def power_one_over)

lemma double_16: "round64 (138350580552821637 / 144115188075855872) = Fin (1080863910568919 / 1125899906842624)"
  by (rule round64_eqI [where e = "- 1" and u = "- 53" and n = 8646911284551352];
      simp add: power_int_def power_one_over)

lemma double_17: "round64 (9 / 10) = Fin (8106479329266893 / 9007199254740992)"
  by (rule round64_eqI [where e = "- 1" and u = "- 53" and n = 8106479329266893];
      simp add: power_int_def power_one_over)

lemma double_18: "round64 (1 / 5) = Fin (3602879701896397 / 18014398509481984)"
  by (rule round64_eqI [where e = "- 3" and u = "- 55" and n = 7205759403792794];
      simp add: power_int_def power_one_over)

lemma double_19: "round64 (3602879701896397 / 36028797018963968) = Fin (3602879701896397 / 36028797018963968)"
  by (rule round64_eqI [where e = "- 4" and u = "- 56" and n = 7205759403792794];
      simp add: power_int_def power_one_over)

lemma double_20: "round64 (30624477466119371 / 36028797018963968) = Fin (7656119366529843 / 9007199254740992)"
  by (rule round64_eqI [where e = "- 1" and u = "- 53" and n = 7656119366529843];
      simp add: power_int_def power_one_over)

lemma double_21: "round64 (37830236869912165 / 36028797018963968) = Fin (4728779608739021 / 4503599627370496)"
  by (rule round64_eqI [where e = 0 and u = "- 52" and n = 4728779608739021];
      simp add: power_int_def power_one_over)

lemma double_22: "round64 (- (3602879701896397 / 72057594037927936)) = Fin (- (3602879701896397 / 72057594037927936))"
  by (rule round64_eqI [where e = "- 5" and u = "- 57" and n = "- 7205759403792794"];
      simp add: power_int_def power_one_over)

lemma double_23: "round64 (10808639105689191 / 72057594037927936) = Fin (1351079888211149 / 9007199254740992)"
  by (rule round64_eqI [where e = "- 3" and u = "- 55" and n = 5404319552844596];
      simp add: power_int_def power_one_over)

lemma double_24: "round64 (39 / 100) = Fin (3512807709348987 / 9007199254740992)"
  by (rule round64_eqI [where e = "- 2" and u = "- 54" and n = 7025615418697974];
      simp add: power_int_def power_one_over)

lemma double_25: "round64 (2 / 5) = Fin (3602879701896397 / 9007199254740992)"
  by (rule round64_eqI [where e = "- 2" and u = "- 54" and n = 7205759403792794];
      simp add: power_int_def power_one_over)

lemma double_26: "round64 (3 / 5) = Fin (5404319552844595 / 9007199254740992)"
  by (rule round64_eqI [where e = "- 1" and u = "- 53" and n = 5404319552844595];
      simp add: power_int_def power_one_over)

lemma double_27: "round64 (61 / 100) = Fin (5494391545392005 / 9007199254740992)"
  by (rule round64_eqI [where e = "- 1" and u = "- 53" and n = 5494391545392005];
      simp add: power_int_def power_one_over)

lemma double_28: "round64 (14411518807585587 / 36028797018963968) = Fin (3602879701896397 / 9007199254740992)"
  by (rule round64_eqI [where e = "- 2" and u = "- 54" and n = 7205759403792794];
      simp add: power_int_def power_one_over)

lemma double_29: "round64 (21617278211378381 / 36028797018963968) = Fin (5404319552844595 / 9007199254740992)"
  by (rule round64_eqI [where e = "- 1" and u = "- 53" and n = 5404319552844595];
      simp add: power_int_def power_one_over)

lemma double_30: "round64 (- (1 / 1152921504606846976)) = Fin (- (1 / 1152921504606846976))"
  by (rule round64_eqI [where e = "- 60" and u = "- 112" and n = "- 4503599627370496"];
      simp add: power_int_def power_one_over)

lemma double_31: "round64 (1152921504606846975 / 1152921504606846976) = Fin 1"
  by (rule round64_eqI [where e = "- 1" and u = "- 53" and n = 9007199254740992];
      simp add: power_int_def power_one_over)

lemma double_32: "round64 1 = Fin 1"
  by (rule round64_eqI [where e = 0 and u = "- 52" and n = 4503599627370496];
      simp add: power_int_def power_one_over)

lemma double_33: "round64 (5 / 4) = Fin (5 / 4)"
  by (rule round64_eqI [where e = 0 and u = "- 52" and n = 5629499534213120];
      simp add: power_int_def power_one_over)

lemma double_34: "round64 (- (1 / 4)) = Fin (- (1 / 4))"
  by (rule round64_eqI [where e = "- 2" and u = "- 54" and n = "- 4503599627370496"];
      simp add: power_int_def power_one_over)

lemma double_35: "round64 (1 / 4) = Fin (1 / 4)"
  by (rule round64_eqI [where e = "- 2" and u = "- 54" and n = 4503599627370496];
      simp add: power_int_def power_one_over)

lemma double_36: "round64 (3 / 4) = Fin (3 / 4)"
  by (rule round64_eqI [where e = "- 1" and u = "- 53" and n = 6755399441055744];
      simp add: power_int_def power_one_over)

lemmas double_values =
  double_1 double_2 double_3 double_4 double_5 double_6 double_7 double_8 double_9
  double_10 double_11 double_12 double_13 double_14 double_15 double_16 double_17
  double_18 double_19 double_20 double_21 double_22 double_23 double_24 double_25
  double_26 double_27 double_28 double_29 double_30 double_31 double_32 double_33
  double_34 double_35 double_36

text \<open>The remainders modulo \<open>1.0\<close> that the examples go through.\<close>

lemma f_fmod_one_eqI:
  assumes "r = a - of_int k" and "\<bar>r\<bar> < 1" and "0 \<le> a \<longrightarrow> 0 \<le> r" and "a < 0 \<longrightarrow> r \<le> 0"
  shows "f_fmod (Fin a) (Fin 1) = Fin r"
proof (cases "0 \<le> a")
  case True
  then have "\<lfloor>a\<rfloor> = k" using assms by (intro floor_unique) simp_all
  then show ?thesis using True assms(1) by simp
next
  case False
  then have "\<lceil>a\<rceil> = k" using assms by (intro ceiling_unique) simp_all
  then show ?thesis using False assms(1) by simp
qed

lemma fmod_1: "f_fmod (Fin (- (1 / 1152921504606846976))) (Fin 1) = Fin (- (1 / 1152921504606846976))"
  by (rule f_fmod_one_eqI [where k = 0]; simp)

lemma fmod_2: "f_fmod (Fin (5 / 4)) (Fin 1) = Fin (1 / 4)"
  by (rule f_fmod_one_eqI [where k = 1]; simp)

lemma fmod_3: "f_fmod (Fin (- (1 / 4))) (Fin 1) = Fin (- (1 / 4))"
  by (rule f_fmod_one_eqI [where k = 0]; simp)

lemmas float_eval =
  lit_def f_gt_def f_ge_def f_le_def f_sub_def round64_zero double_values

lemmas phase_eval =
  time_to_phase_def cycles_def start_phase_def np_mod_def Let_def fmod_1 fmod_2 fmod_3

section \<open>Facts about phases\<close>

lemma f_mul_not_finite: "\<not> isfinite x \<Longrightarrow> \<not> isfinite (f_mul x y)"
  by (cases x; cases y; simp)

lemma f_add_not_finite: "\<not> isfinite y \<Longrightarrow> \<not> isfinite (f_add x y)"
  by (cases x; cases y; simp)

lemma f_sub_not_finite: "\<not> isfinite y \<Longrightarrow> \<not> isfinite (f_sub x y)"
  by (cases x; cases y; simp add: f_sub_def)

lemma f_div_not_finite: "\<not> isfinite x \<Longrightarrow> \<not> isfinite (f_div x y)"
  by (cases x; cases y; simp)

text \<open>A finite number of cycles needs a finite start phase.\<close>

lemma cycles_finite:
  assumes "isfinite (cycles t period t0 centre)"
  shows "isfinite (start_phase centre)"
proof (rule ccontr)
  assume "\<not> isfinite (start_phase centre)"
  then have "\<not> isfinite (f_mul (start_phase centre) period)" by (rule f_mul_not_finite)
  then have "\<not> isfinite (f_add t0 (f_mul (start_phase centre) period))"
    by (rule f_add_not_finite)
  then have "\<not> isfinite (f_sub t (f_add t0 (f_mul (start_phase centre) period)))"
    by (rule f_sub_not_finite)
  then have "\<not> isfinite (cycles t period t0 centre)"
    unfolding cycles_def Let_def by (rule f_div_not_finite)
  then show False using assms by simp
qed

lemma np_mod_not_finite: "\<not> isfinite a \<Longrightarrow> np_mod a (Fin 1) = NaN"
  by (cases a; simp add: np_mod_def)

lemma lit_half: "lit (5 / 10) = Fin (1 / 2)" "lit (1 / 2) = Fin (1 / 2)"
  by (simp_all add: lit_def double_values)

text \<open>A finite start phase is a double.\<close>

lemma start_phase_double:
  assumes "start_phase centre = Fin s"
  shows "round64 s = Fin s"
proof (cases centre)
  case (Fin c)
  then have "round64 (c + - (1 / 2)) = Fin s"
    using assms by (simp add: start_phase_def f_sub_def lit_half)
  then show ?thesis by (rule round64_idem)
qed (use assms in \<open>simp_all add: start_phase_def f_sub_def lit_half\<close>)

lemma phase_range:
  assumes "isfinite (cycles t period t0 centre)"
  shows "f_le (start_phase centre)
           (f_add (np_mod (cycles t period t0 centre) (Fin 1)) (start_phase centre))
       \<and> f_le (f_add (np_mod (cycles t period t0 centre) (Fin 1)) (start_phase centre))
           (f_add (start_phase centre) (Fin 1))"
proof -
  obtain q where q: "cycles t period t0 centre = Fin q"
    using assms by (cases "cycles t period t0 centre") simp_all
  obtain s where s: "start_phase centre = Fin s"
    using cycles_finite [OF assms] by (cases "start_phase centre") simp_all
  obtain m where m: "np_mod (Fin q) (Fin 1) = Fin m" "0 \<le> m" "m \<le> 1"
    using np_mod_one_range [of q] by blast
  have d: "round64 s = Fin s" using s by (rule start_phase_double)
  have "f_le (round64 s) (round64 (m + s))" using m(2) by (intro round64_mono) simp
  then have lo: "f_le (Fin s) (round64 (m + s))" by (simp only: d)
  have hi: "f_le (round64 (m + s)) (round64 (s + 1))" using m(3) by (intro round64_mono) simp
  show ?thesis using lo hi by (simp add: q s m(1))
qed

section \<open>Facts about the stage methods\<close>

lemma log_msg_fields [simp]:
  "data_dir (log_msg l m p) = data_dir p"
  "output_dir (log_msg l m p) = output_dir p"
  "config_n_injections (log_msg l m p) = config_n_injections p"
  "transit_injector (log_msg l m p) = transit_injector p"
  "results (log_msg l m p) = results p"
  "world (log_msg l m p) = world p"
  "calls (log_msg l m p) = calls p"
  "logged (log_msg l m p) = logged p @ [(l, m)]"
  by (simp_all add: log_msg_def)

lemma record_call_fields [simp]:
  "data_dir (record_call c p) = data_dir p"
  "output_dir (record_call c p) = output_dir p"
  "config_n_injections (record_call c p) = config_n_injections p"
  "transit_injector (record_call c p) = transit_injector p"
  "results (record_call c p) = results p"
  "world (record_call c p) = world p"
  "calls (record_call c p) = calls p @ [c]"
  "logged (record_call c p) = logged p"
  by (simp_all add: record_call_def)

lemma and_then_Inl [simp]: "and_then (Inl e, p) f = (Inl e, p)"
  by (simp add: and_then_def)

lemma and_then_Inr [simp]: "and_then (Inr x, p) f = f x p"
  by (simp add: and_then_def)

lemma and_then_cases:
  "and_then r f = (case fst r of Inl e \<Rightarrow> (Inl e, snd r) | Inr x \<Rightarrow> f x (snd r))"
  by (cases r) (auto simp: and_then_def split: sum.splits)

text \<open>What one call of \<open>mask_eclipses\<close> does to the state.\<close>

lemma mask_eclipses_effect:
  assumes "mask_eclipses C kw p = (r, p')"
  shows "calls p' = calls p @ [MaskAll kw]" and "results p' = results p"
    and "transit_injector p' = transit_injector p" and "data_dir p' = data_dir p"
    and "output_dir p' = output_dir p" and "config_n_injections p' = config_n_injections p"
  using assms by (auto simp: mask_eclipses_def Let_def split: prod.splits option.splits)

lemma find_transits_effect:
  assumes "find_transits C f od pod p = (r, p')"
  shows "calls p' = calls p @ [ProcessDirectory (data_dir p) f
                                 (case od of None \<Rightarrow> output_dir p | Some d \<Rightarrow> d) pod]"
    and "results p' = results p"
    and "transit_injector p' = transit_injector p" and "data_dir p' = data_dir p"
    and "output_dir p' = output_dir p" and "config_n_injections p' = config_n_injections p"
  using assms by (auto simp: find_transits_def Let_def split: prod.splits sum.splits)

lemma vet_candidates_effect:
  assumes "vet_candidates C es dir f od p = (r, p')"
  shows "calls p' = calls p @
           [CompareEvents
              (case es of
                 Some snippets \<Rightarrow> Snippets snippets
               | None \<Rightarrow> SnippetDir (case dir of
                                       None \<Rightarrow> os_path_join (output_dir p) ''event_snippets''
                                     | Some d \<Rightarrow> d))
              f (case od of None \<Rightarrow> output_dir p | Some d \<Rightarrow> d)]"
    and "results p' = results p"
    and "transit_injector p' = transit_injector p" and "data_dir p' = data_dir p"
    and "output_dir p' = output_dir p" and "config_n_injections p' = config_n_injections p"
  using assms
  by (auto simp: vet_candidates_def Let_def split: prod.splits sum.splits option.splits)

lemma run_injection_retrieval_effect:
  assumes "run_injection_retrieval C n f od p = (r, p')"
  shows "calls p' = calls p @
           (if transit_injector p = None then []
            else [InjectionRetrieval (data_dir p)
                    (case n of None \<Rightarrow> config_n_injections p | Some k \<Rightarrow> k) f
                    (case od of None \<Rightarrow> data_dir p | Some d \<Rightarrow> if d = [] then data_dir p else d)])"
    and "results p' = results p"
    and "transit_injector p' = transit_injector p" and "data_dir p' = data_dir p"
    and "output_dir p' = output_dir p" and "config_n_injections p' = config_n_injections p"
  using assms
  by (auto simp: run_injection_retrieval_def Let_def split: prod.splits sum.splits if_splits)

lemma transit_finding_step_effect:
  assumes "transit_finding_step C ft kw p = (r, p')"
  shows "calls p' = calls p @
           (if ft then
              [ProcessDirectory (data_dir p)
                 (case ft_output_file (case find_transits_kwargs kw of None \<Rightarrow> no_ft_kwargs | Some k \<Rightarrow> k) of
                    None \<Rightarrow> ''transit_events.txt'' | Some f \<Rightarrow> f)
                 (case ft_output_dir (case find_transits_kwargs kw of None \<Rightarrow> no_ft_kwargs | Some k \<Rightarrow> k) of
                    None \<Rightarrow> output_dir p | Some d \<Rightarrow> d)
                 (ft_plot_output_dir (case find_transits_kwargs kw of None \<Rightarrow> no_ft_kwargs | Some k \<Rightarrow> k))]
            else [])"
    and "transit_injector p' = transit_injector p" and "data_dir p' = data_dir p"
    and "output_dir p' = output_dir p" and "config_n_injections p' = config_n_injections p"
    and "\<And>k. k \<noteq> ''transit_finding'' \<Longrightarrow> results p' k = results p k"
    and "ft \<Longrightarrow> r = Inr u \<Longrightarrow> results p' ''transit_finding'' \<noteq> None"
    and "\<not> ft \<or> (\<exists>e. r = Inl e) \<Longrightarrow> results p' = results p"
    and "\<not> ft \<Longrightarrow> r = Inr ()"
proof -
  let ?k = "case find_transits_kwargs kw of None \<Rightarrow> no_ft_kwargs | Some k \<Rightarrow> k"
  let ?q = "log_msg INFO ''Step 2: Transit finding'' p"
  obtain r1 p1 where f: "find_transits C
      (case ft_output_file ?k of None \<Rightarrow> ''transit_events.txt'' | Some f \<Rightarrow> f)
      (ft_output_dir ?k) (ft_plot_output_dir ?k) ?q = (r1, p1)"
    by (cases "find_transits C
      (case ft_output_file ?k of None \<Rightarrow> ''transit_events.txt'' | Some f \<Rightarrow> f)
      (ft_output_dir ?k) (ft_plot_output_dir ?k) ?q") auto
  note e = find_transits_effect [OF f]
  have step: "(r, p') =
      (if ft then (case r1 of Inl e \<Rightarrow> (Inl e, p1)
                   | Inr res \<Rightarrow> (Inr (), p1\<lparr>results := (results p1)(''transit_finding'' \<mapsto> res)\<rparr>))
       else (Inr (), p))"
    using assms f by (auto simp: transit_finding_step_def find_transits_kw_def and_then_def split: sum.splits)
  show "calls p' = calls p @
           (if ft then
              [ProcessDirectory (data_dir p)
                 (case ft_output_file ?k of None \<Rightarrow> ''transit_events.txt'' | Some f \<Rightarrow> f)
                 (case ft_output_dir ?k of None \<Rightarrow> output_dir p | Some d \<Rightarrow> d)
                 (ft_plot_output_dir ?k)]
            else [])"
    using step e by (auto split: if_splits sum.splits option.splits)
  show "transit_injector p' = transit_injector p" "data_dir p' = data_dir p"
    "output_dir p' = output_dir p" "config_n_injections p' = config_n_injections p"
    using step e by (auto split: if_splits sum.splits)
  show "\<And>k. k \<noteq> ''transit_finding'' \<Longrightarrow> results p' k = results p k"
    using step e by (auto split: if_splits sum.splits)
  show "ft \<Longrightarrow> r = Inr u \<Longrightarrow> results p' ''transit_finding'' \<noteq> None"
    using step e by (auto split: if_splits sum.splits)
  show "\<not> ft \<or> (\<exists>e. r = Inl e) \<Longrightarrow> results p' = results p"
    using step e by (auto split: if_splits sum.splits)
  show "\<not> ft \<Longrightarrow> r = Inr ()"
    using step by (auto split: if_splits sum.splits)
qed

text \<open>The keyword arguments with which the vetting stage of \<open>run\<close> calls \<open>vet_candidates\<close>.\<close>

lemma vetting_step_unfold:
  "vetting_step C True True kw p =
     (let vk = (case vet_candidates_kwargs kw of None \<Rightarrow> no_vet_kwargs | Some k \<Rightarrow> k);
          fs = (case finder_event_snippets C (world p) of None \<Rightarrow> [] | Some s \<Rightarrow> s);
          p1 = log_msg INFO ''Step 3: Model comparison vetting'' p
      in and_then
           (if fs \<noteq> [] \<and> vk_event_snippets vk = None
            then vet_candidates_kw C (vk\<lparr>vk_event_snippets := Some (Some fs)\<rparr>)
                   (log_msg INFO (''Passing '' @ str_nat (length fs) @ '' event snippets'') p1)
            else if fs = []
            then vet_candidates_kw C vk
                   (log_msg INFO ''No event snippets in memory, using file-based processing'' p1)
            else vet_candidates_kw C vk p1)
           (\<lambda>vetting_results p3.
              (Inr (), p3\<lparr>results := (results p3)(''vetting'' \<mapsto> vetting_results)\<rparr>)))"
  by (simp add: vetting_step_def Let_def)

lemma vetting_step_skip:
  "\<not> (vc \<and> ft) \<Longrightarrow> vetting_step C vc ft kw p = (Inr (), p)"
  by (auto simp: vetting_step_def)

lemma vet_candidates_kw_effect:
  assumes "vet_candidates_kw C vk p = (r, p')"
  shows "calls p' = calls p @
           [CompareEvents
              (case vk_event_snippets vk of
                 Some (Some snippets) \<Rightarrow> Snippets snippets
               | _ \<Rightarrow> SnippetDir (case vk_event_snippets_dir vk of
                                    None \<Rightarrow> os_path_join (output_dir p) ''event_snippets''
                                  | Some d \<Rightarrow> d))
              (case vk_output_file vk of None \<Rightarrow> ''vetting_results.csv'' | Some f \<Rightarrow> f)
              (case vk_output_dir vk of None \<Rightarrow> output_dir p | Some d \<Rightarrow> d)]"
    and "results p' = results p"
    and "transit_injector p' = transit_injector p" and "data_dir p' = data_dir p"
    and "output_dir p' = output_dir p" and "config_n_injections p' = config_n_injections p"
proof -
  note e = vet_candidates_effect [OF assms [unfolded vet_candidates_kw_def]]
  show "calls p' = calls p @
           [CompareEvents
              (case vk_event_snippets vk of
                 Some (Some snippets) \<Rightarrow> Snippets snippets
               | _ \<Rightarrow> SnippetDir (case vk_event_snippets_dir vk of
                                    None \<Rightarrow> os_path_join (output_dir p) ''event_snippets''
                                  | Some d \<Rightarrow> d))
              (case vk_output_file vk of None \<Rightarrow> ''vetting_results.csv'' | Some f \<Rightarrow> f)
              (case vk_output_dir vk of None \<Rightarrow> output_dir p | Some d \<Rightarrow> d)]"
    unfolding e(1) by (simp split: option.splits)
  show "results p' = results p" "transit_injector p' = transit_injector p"
    "data_dir p' = data_dir p" "output_dir p' = output_dir p"
    "config_n_injections p' = config_n_injections p"
    by (rule e)+
qed

lemma vetting_step_effect:
  assumes "vetting_step C vc ft kw p = (r, p')"
  shows "calls p' = calls p @
           (if vc \<and> ft then
              [CompareEvents (vetting_source C kw p)
                 (case vk_output_file (case vet_candidates_kwargs kw of None \<Rightarrow> no_vet_kwargs | Some k \<Rightarrow> k) of
                    None \<Rightarrow> ''vetting_results.csv'' | Some f \<Rightarrow> f)
                 (case vk_output_dir (case vet_candidates_kwargs kw of None \<Rightarrow> no_vet_kwargs | Some k \<Rightarrow> k) of
                    None \<Rightarrow> output_dir p | Some d \<Rightarrow> d)]
            else [])"
    and "transit_injector p' = transit_injector p" and "data_dir p' = data_dir p"
    and "output_dir p' = output_dir p" and "config_n_injections p' = config_n_injections p"
    and "\<And>k. k \<noteq> ''vetting'' \<Longrightarrow> results p' k = results p k"
    and "vc \<and> ft \<Longrightarrow> r = Inr u \<Longrightarrow> results p' ''vetting'' \<noteq> None"
    and "\<not> (vc \<and> ft) \<or> (\<exists>e. r = Inl e) \<Longrightarrow> results p' = results p"
    and "\<not> (vc \<and> ft) \<Longrightarrow> r = Inr ()"
proof -
  let ?vk = "case vet_candidates_kwargs kw of None \<Rightarrow> no_vet_kwargs | Some k \<Rightarrow> k"
  let ?fs = "case finder_event_snippets C (world p) of None \<Rightarrow> [] | Some s \<Rightarrow> s"
  let ?p1 = "log_msg INFO ''Step 3: Model comparison vetting'' p"
  let ?call = "if ?fs \<noteq> [] \<and> vk_event_snippets ?vk = None
            then vet_candidates_kw C (?vk\<lparr>vk_event_snippets := Some (Some ?fs)\<rparr>)
                   (log_msg INFO (''Passing '' @ str_nat (length ?fs) @ '' event snippets'') ?p1)
            else if ?fs = []
            then vet_candidates_kw C ?vk
                   (log_msg INFO ''No event snippets in memory, using file-based processing'' ?p1)
            else vet_candidates_kw C ?vk ?p1"
  obtain r1 p1 where v: "?call = (r1, p1)" by (cases ?call) auto
  have step: "(r, p') =
      (if vc \<and> ft then
         (case r1 of Inl e \<Rightarrow> (Inl e, p1)
          | Inr res \<Rightarrow> (Inr (), p1\<lparr>results := (results p1)(''vetting'' \<mapsto> res)\<rparr>))
       else (Inr (), p))"
  proof (cases "vc \<and> ft")
    case True
    then show ?thesis
      using assms v by (auto simp: vetting_step_unfold Let_def and_then_def split: sum.splits)
  next
    case False
    then show ?thesis using assms by (auto simp: vetting_step_skip)
  qed
  have c1: "calls p1 = calls p @
              [CompareEvents (vetting_source C kw p)
                 (case vk_output_file ?vk of None \<Rightarrow> ''vetting_results.csv'' | Some f \<Rightarrow> f)
                 (case vk_output_dir ?vk of None \<Rightarrow> output_dir p | Some d \<Rightarrow> d)]"
    and f1: "results p1 = results p" "transit_injector p1 = transit_injector p"
      "data_dir p1 = data_dir p" "output_dir p1 = output_dir p"
      "config_n_injections p1 = config_n_injections p"
  proof -
    consider (pass) "?fs \<noteq> []" "vk_event_snippets ?vk = None"
      | (empty) "?fs = []"
      | (own) "?fs \<noteq> []" "vk_event_snippets ?vk \<noteq> None"
      by blast
    then have "calls p1 = calls p @
              [CompareEvents (vetting_source C kw p)
                 (case vk_output_file ?vk of None \<Rightarrow> ''vetting_results.csv'' | Some f \<Rightarrow> f)
                 (case vk_output_dir ?vk of None \<Rightarrow> output_dir p | Some d \<Rightarrow> d)]
        \<and> results p1 = results p \<and> transit_injector p1 = transit_injector p
        \<and> data_dir p1 = data_dir p \<and> output_dir p1 = output_dir p
        \<and> config_n_injections p1 = config_n_injections p"
    proof cases
      case pass
      with v have "vet_candidates_kw C (?vk\<lparr>vk_event_snippets := Some (Some ?fs)\<rparr>)
                   (log_msg INFO (''Passing '' @ str_nat (length ?fs) @ '' event snippets'') ?p1)
                   = (r1, p1)"
        by simp
      note e = vet_candidates_kw_effect [OF this]
      have "vetting_source C kw p = Snippets ?fs"
        using pass by (simp add: vetting_source_def Let_def split: option.splits)
      with e show ?thesis by (simp cong: option.case_cong)
    next
      case empty
      with v have "vet_candidates_kw C ?vk
                   (log_msg INFO ''No event snippets in memory, using file-based processing'' ?p1)
                   = (r1, p1)"
        by simp
      note e = vet_candidates_kw_effect [OF this]
      have "vetting_source C kw p =
              (case vk_event_snippets ?vk of
                 Some (Some snippets) \<Rightarrow> Snippets snippets
               | _ \<Rightarrow> SnippetDir (case vk_event_snippets_dir ?vk of
                                    None \<Rightarrow> os_path_join (output_dir p) ''event_snippets''
                                  | Some d \<Rightarrow> d))"
        using empty by (simp add: vetting_source_def Let_def split: option.splits)
      with e show ?thesis by (simp cong: option.case_cong)
    next
      case own
      with v have "vet_candidates_kw C ?vk ?p1 = (r1, p1)"
        by simp
      note e = vet_candidates_kw_effect [OF this]
      have "vetting_source C kw p =
              (case vk_event_snippets ?vk of
                 Some (Some snippets) \<Rightarrow> Snippets snippets
               | _ \<Rightarrow> SnippetDir (case vk_event_snippets_dir ?vk of
                                    None \<Rightarrow> os_path_join (output_dir p) ''event_snippets''
                                  | Some d \<Rightarrow> d))"
        using own by (simp add: vetting_source_def Let_def split: option.splits)
      with e show ?thesis by (simp cong: option.case_cong)
    qed
    then show "calls p1 = calls p @
              [CompareEvents (vetting_source C kw p)
                 (case vk_output_file ?vk of None \<Rightarrow> ''vetting_results.csv'' | Some f \<Rightarrow> f)
                 (case vk_output_dir ?vk of None \<Rightarrow> output_dir p | Some d \<Rightarrow> d)]"
      and "results p1 = results p" "transit_injector p1 = transit_injector p"
      "data_dir p1 = data_dir p" "output_dir p1 = output_dir p"
      "config_n_injections p1 = config_n_injections p"
      by simp_all
  qed
  show "calls p' = calls p @
           (if vc \<and> ft then
              [CompareEvents (vetting_source C kw p)
                 (case vk_output_file ?vk of None \<Rightarrow> ''vetting_results.csv'' | Some f \<Rightarrow> f)
                 (case vk_output_dir ?vk of None \<Rightarrow> output_dir p | Some d \<Rightarrow> d)]
            else [])"
    using step c1 by (auto split: sum.splits if_splits)
  show "transit_injector p' = transit_injector p" "data_dir p' = data_dir p"
    "output_dir p' = output_dir p" "config_n_injections p' = config_n_injections p"
    using step f1 by (auto split: sum.splits if_splits)
  show "\<And>k. k \<noteq> ''vetting'' \<Longrightarrow> results p' k = results p k"
    using step f1 by (auto split: sum.splits if_splits)
  show "vc \<and> ft \<Longrightarrow> r = Inr u \<Longrightarrow> results p' ''vetting'' \<noteq> None"
    using step f1 by (auto split: sum.splits if_splits)
  show "\<not> (vc \<and> ft) \<or> (\<exists>e. r = Inl e) \<Longrightarrow> results p' = results p"
    using step f1 by (auto split: sum.splits if_splits)
  show "\<not> (vc \<and> ft) \<Longrightarrow> r = Inr ()"
    using step by (auto split: sum.splits if_splits)
qed

lemma injection_step_effect:
  assumes "injection_step C ir kw p = (r, p')"
  shows "calls p' = calls p @
           (if ir \<and> transit_injector p \<noteq> None then
              [InjectionRetrieval (data_dir p)
                 (case ir_n_injections (case injection_retrieval_kwargs kw of None \<Rightarrow> no_ir_kwargs | Some k \<Rightarrow> k) of
                    None \<Rightarrow> config_n_injections p | Some n \<Rightarrow> n)
                 (case ir_output_file (case injection_retrieval_kwargs kw of None \<Rightarrow> no_ir_kwargs | Some k \<Rightarrow> k) of
                    None \<Rightarrow> ''injection_results.csv'' | Some f \<Rightarrow> f)
                 (case ir_output_dir (case injection_retrieval_kwargs kw of None \<Rightarrow> no_ir_kwargs | Some k \<Rightarrow> k) of
                    None \<Rightarrow> data_dir p | Some d \<Rightarrow> if d = [] then data_dir p else d)]
            else [])"
    and "transit_injector p' = transit_injector p" and "data_dir p' = data_dir p"
    and "output_dir p' = output_dir p" and "config_n_injections p' = config_n_injections p"
    and "\<And>k. k \<noteq> ''injection_retrieval'' \<Longrightarrow> results p' k = results p k"
    and "ir \<and> transit_injector p \<noteq> None \<Longrightarrow> r = Inr u \<Longrightarrow> results p' ''injection_retrieval'' \<noteq> None"
    and "\<not> (ir \<and> transit_injector p \<noteq> None) \<or> (\<exists>e. r = Inl e) \<Longrightarrow> results p' = results p"
    and "\<not> (ir \<and> transit_injector p \<noteq> None) \<Longrightarrow> r = Inr ()"
proof -
  let ?k = "case injection_retrieval_kwargs kw of None \<Rightarrow> no_ir_kwargs | Some k \<Rightarrow> k"
  let ?q = "log_msg INFO ''Step 4: Injection-retrieval testing'' p"
  let ?call = "run_injection_retrieval C (ir_n_injections ?k)
       (case ir_output_file ?k of None \<Rightarrow> ''injection_results.csv'' | Some f \<Rightarrow> f)
       (ir_output_dir ?k) ?q"
  obtain r1 p1 where f: "?call = (r1, p1)" by (cases ?call) auto
  note e = run_injection_retrieval_effect [OF f]
  have step: "(r, p') =
      (if ir then
         (if transit_injector p = None then
            (Inr (), log_msg WARNING
               ''Injection-retrieval requested but transit models not provided - skipping'' p)
          else (case r1 of Inl e \<Rightarrow> (Inl e, p1)
                | Inr res \<Rightarrow> (Inr (), p1\<lparr>results := (results p1)(''injection_retrieval'' \<mapsto> res)\<rparr>)))
       else (Inr (), p))"
    using assms f
    by (auto simp: injection_step_def run_injection_retrieval_kw_def and_then_def split: sum.splits)
  show "calls p' = calls p @
           (if ir \<and> transit_injector p \<noteq> None then
              [InjectionRetrieval (data_dir p)
                 (case ir_n_injections ?k of None \<Rightarrow> config_n_injections p | Some n \<Rightarrow> n)
                 (case ir_output_file ?k of None \<Rightarrow> ''injection_results.csv'' | Some f \<Rightarrow> f)
                 (case ir_output_dir ?k of
                    None \<Rightarrow> data_dir p | Some d \<Rightarrow> if d = [] then data_dir p else d)]
            else [])"
    using step e by (auto split: if_splits sum.splits option.splits)
  show "transit_injector p' = transit_injector p" "data_dir p' = data_dir p"
    "output_dir p' = output_dir p" "config_n_injections p' = config_n_injections p"
    using step e by (auto split: if_splits sum.splits)
  show "\<And>k. k \<noteq> ''injection_retrieval'' \<Longrightarrow> results p' k = results p k"
    using step e by (auto split: if_splits sum.splits)
  show "ir \<and> transit_injector p \<noteq> None \<Longrightarrow> r = Inr u \<Longrightarrow> results p' ''injection_retrieval'' \<noteq> None"
    using step e by (auto split: if_splits sum.splits)
  show "\<not> (ir \<and> transit_injector p \<noteq> None) \<or> (\<exists>e. r = Inl e) \<Longrightarrow> results p' = results p"
    using step e by (auto split: if_splits sum.splits)
  show "\<not> (ir \<and> transit_injector p \<noteq> None) \<Longrightarrow> r = Inr ()"
    using step by (auto split: if_splits sum.splits)
qed

lemma injection_step_without_injector:
  "transit_injector p = None \<Longrightarrow>
   injection_step C True kw p =
     (Inr (), log_msg WARNING
        ''Injection-retrieval requested but transit models not provided - skipping'' p)"
  by (simp add: injection_step_def)

lemma injection_step_not_requested:
  "injection_step C False kw p = (Inr (), p)"
  by (simp add: injection_step_def)

section \<open>Facts about the registry and the call trace\<close>

lemma extends_refl: "extends p [] p"
  by (simp add: extends_def)

lemma extends_trans:
  assumes "extends p cs p1" and "extends p1 cs' p2"
  shows "extends p (cs @ cs') p2"
  using assms unfolding extends_def list_ex_iff by (metis append.assoc set_append UnCI)

lemma extends_log_msg_left: "extends (log_msg l m p) cs p' \<Longrightarrow> extends p cs p'"
  by (simp add: extends_def)

lemma extends_log_msg_right: "extends p cs p' \<Longrightarrow> extends p cs (log_msg l m p')"
  by (simp add: extends_def)

lemma mask_eclipses_extends:
  "mask_eclipses C kw p = (r, p') \<Longrightarrow> extends p [MaskAll kw] p'"
  by (simp add: extends_def mask_eclipses_effect)

lemma find_transits_extends:
  "find_transits C f od pod p = (r, p') \<Longrightarrow> \<exists>c. is_transit_search c \<and> extends p [c] p'"
  by (auto simp: extends_def dest: find_transits_effect intro!: exI [of _ "ProcessDirectory _ _ _ _"])

lemma vet_candidates_extends:
  "vet_candidates C es dir f od p = (r, p') \<Longrightarrow> \<exists>c. is_vetting c \<and> extends p [c] p'"
  by (auto simp: extends_def dest: vet_candidates_effect intro!: exI [of _ "CompareEvents _ _ _"])

lemma run_injection_retrieval_extends:
  "run_injection_retrieval C n f od p = (r, p') \<Longrightarrow>
   \<exists>cs. extends p cs p' \<and> (cs = [] \<or> (\<exists>c. cs = [c] \<and> is_injection c \<and> transit_injector p \<noteq> None))"
proof -
  assume a: "run_injection_retrieval C n f od p = (r, p')"
  note e = run_injection_retrieval_effect [OF a]
  show ?thesis
  proof (cases "transit_injector p = None")
    case True
    then have "extends p [] p'" using e by (simp add: extends_def)
    then show ?thesis by blast
  next
    case False
    then obtain c where c: "calls p' = calls p @ [c]" "is_injection c"
      using e(1) by simp
    then have "extends p [c] p'" using e by (simp add: extends_def)
    with c False show ?thesis by blast
  qed
qed

lemma stage_key_transit_search [simp]:
  "is_transit_search c \<Longrightarrow> stage_key c = Some ''transit_finding''"
  by (cases c) simp_all

lemma stage_key_vetting [simp]:
  "is_vetting c \<Longrightarrow> stage_key c = Some ''vetting''"
  by (cases c) simp_all

lemma stage_key_injection [simp]:
  "is_injection c \<Longrightarrow> stage_key c = Some ''injection_retrieval''"
  by (cases c) simp_all

lemma transit_finding_step_extends:
  assumes "transit_finding_step C ft kw p = (r, p')"
  shows "\<exists>cs. extends p cs p' \<and> (if ft then \<exists>c. cs = [c] \<and> is_transit_search c else cs = [])"
proof -
  note e = transit_finding_step_effect [OF assms]
  show ?thesis
  proof (cases ft)
    case True
    then obtain c where c: "calls p' = calls p @ [c]" "is_transit_search c"
      using e(1) by simp
    have "results p' k \<noteq> results p k \<Longrightarrow> k = ''transit_finding'' \<and> results p' k \<noteq> None" for k
      using e(6) [of k] e(7) [OF True] e(8) by (cases r) auto
    then have "extends p [c] p'"
      using c e(2-5) by (auto simp: extends_def)
    with c True show ?thesis by auto
  next
    case False
    then have "extends p [] p'" using e by (simp add: extends_def)
    with False show ?thesis by auto
  qed
qed

lemma vetting_step_extends:
  assumes "vetting_step C vc ft kw p = (r, p')"
  shows "\<exists>cs. extends p cs p' \<and> (if vc \<and> ft then \<exists>c. cs = [c] \<and> is_vetting c else cs = [])"
proof -
  note e = vetting_step_effect [OF assms]
  show ?thesis
  proof (cases "vc \<and> ft")
    case True
    then obtain c where c: "calls p' = calls p @ [c]" "is_vetting c"
      using e(1) by simp
    have "results p' k \<noteq> results p k \<Longrightarrow> k = ''vetting'' \<and> results p' k \<noteq> None" for k
      using e(6) [of k] e(7) [OF True] e(8) by (cases r) auto
    then have "extends p [c] p'"
      using c e(2-5) by (auto simp: extends_def)
    with c True show ?thesis by auto
  next
    case False
    then have "extends p [] p'" using e by (simp add: extends_def)
    with False show ?thesis by auto
  qed
qed

lemma injection_step_extends:
  assumes "injection_step C ir kw p = (r, p')"
  shows "\<exists>cs. extends p cs p'
          \<and> (if ir \<and> transit_injector p \<noteq> None then \<exists>c. cs = [c] \<and> is_injection c else cs = [])"
proof -
  note e = injection_step_effect [OF assms]
  show ?thesis
  proof (cases "ir \<and> transit_injector p \<noteq> None")
    case True
    then obtain c where c: "calls p' = calls p @ [c]" "is_injection c"
      using e(1) by simp
    have "results p' k \<noteq> results p k \<Longrightarrow> k = ''injection_retrieval'' \<and> results p' k \<noteq> None" for k
      using e(6) [of k] e(7) [OF True] e(8) by (cases r) auto
    then have "extends p [c] p'"
      using c e(2-5) by (auto simp: extends_def)
    with c True show ?thesis by auto
  next
    case False
    then have "extends p [] p'" using e by (simp add: extends_def)
    with False show ?thesis by auto
  qed
qed

text \<open>The path of one call of \<open>run\<close>: the first stage that raises ends it.\<close>

lemma run_cases:
  assumes "run C ft vc ir kw p = (R, p')"
  obtains
    (mask_raised) e where
      "mask_eclipses C (case mask_eclipses_kwargs kw of None \<Rightarrow> [] | Some k \<Rightarrow> k)
         (log_msg INFO ''Step 1: Eclipse masking'' (log_msg INFO ''Starting mono-cbp pipeline'' p))
       = (Inl e, p')" "R = Inl e"
  | (search_raised) e p1 where
      "mask_eclipses C (case mask_eclipses_kwargs kw of None \<Rightarrow> [] | Some k \<Rightarrow> k)
         (log_msg INFO ''Step 1: Eclipse masking'' (log_msg INFO ''Starting mono-cbp pipeline'' p))
       = (Inr (), p1)"
      "transit_finding_step C ft kw p1 = (Inl e, p')" "R = Inl e"
  | (vetting_raised) e p1 p2 where
      "mask_eclipses C (case mask_eclipses_kwargs kw of None \<Rightarrow> [] | Some k \<Rightarrow> k)
         (log_msg INFO ''Step 1: Eclipse masking'' (log_msg INFO ''Starting mono-cbp pipeline'' p))
       = (Inr (), p1)"
      "transit_finding_step C ft kw p1 = (Inr (), p2)"
      "vetting_step C vc ft kw p2 = (Inl e, p')" "R = Inl e"
  | (injection_raised) e p1 p2 p3 where
      "mask_eclipses C (case mask_eclipses_kwargs kw of None \<Rightarrow> [] | Some k \<Rightarrow> k)
         (log_msg INFO ''Step 1: Eclipse masking'' (log_msg INFO ''Starting mono-cbp pipeline'' p))
       = (Inr (), p1)"
      "transit_finding_step C ft kw p1 = (Inr (), p2)"
      "vetting_step C vc ft kw p2 = (Inr (), p3)"
      "injection_step C ir kw p3 = (Inl e, p')" "R = Inl e"
  | (completed) p1 p2 p3 p4 where
      "mask_eclipses C (case mask_eclipses_kwargs kw of None \<Rightarrow> [] | Some k \<Rightarrow> k)
         (log_msg INFO ''Step 1: Eclipse masking'' (log_msg INFO ''Starting mono-cbp pipeline'' p))
       = (Inr (), p1)"
      "transit_finding_step C ft kw p1 = (Inr (), p2)"
      "vetting_step C vc ft kw p2 = (Inr (), p3)"
      "injection_step C ir kw p3 = (Inr (), p4)"
      "p' = log_msg INFO ''Pipeline complete'' p4" "R = Inr (results p4)"
proof -
  let ?p0 = "log_msg INFO ''Step 1: Eclipse masking'' (log_msg INFO ''Starting mono-cbp pipeline'' p)"
  let ?mk = "case mask_eclipses_kwargs kw of None \<Rightarrow> [] | Some k \<Rightarrow> k"
  obtain r1 p1 where s1: "mask_eclipses C ?mk ?p0 = (r1, p1)"
    by (cases "mask_eclipses C ?mk ?p0") auto
  obtain r2 p2 where s2: "transit_finding_step C ft kw p1 = (r2, p2)"
    by (cases "transit_finding_step C ft kw p1") auto
  obtain r3 p3 where s3: "vetting_step C vc ft kw p2 = (r3, p3)"
    by (cases "vetting_step C vc ft kw p2") auto
  obtain r4 p4 where s4: "injection_step C ir kw p3 = (r4, p4)"
    by (cases "injection_step C ir kw p3") auto
  show thesis
  proof (cases r1)
    case (Inl e)
    then have "(R, p') = (Inl e, p1)" using assms s1 by (simp add: run_def)
    then show thesis using mask_raised [of e] s1 Inl by simp
  next
    case Inr1: (Inr u1)
    show thesis
    proof (cases r2)
      case (Inl e)
      then have "(R, p') = (Inl e, p2)" using assms s1 s2 Inr1 by (simp add: run_def)
      then show thesis using search_raised [of p1 e] s1 s2 Inr1 Inl by simp
    next
      case Inr2: (Inr u2)
      show thesis
      proof (cases r3)
        case (Inl e)
        then have "(R, p') = (Inl e, p3)" using assms s1 s2 s3 Inr1 Inr2 by (simp add: run_def)
        then show thesis using vetting_raised [of p1 p2 e] s1 s2 s3 Inr1 Inr2 Inl by simp
      next
        case Inr3: (Inr u3)
        show thesis
        proof (cases r4)
          case (Inl e)
          then have "(R, p') = (Inl e, p4)"
            using assms s1 s2 s3 s4 Inr1 Inr2 Inr3 by (simp add: run_def)
          then show thesis
            using injection_raised [of p1 p2 p3 e] s1 s2 s3 s4 Inr1 Inr2 Inr3 Inl by simp
        next
          case Inr4: (Inr u4)
          then have "(R, p') = (Inr (results p4), log_msg INFO ''Pipeline complete'' p4)"
            using assms s1 s2 s3 s4 Inr1 Inr2 Inr3 by (simp add: run_def Let_def)
          then show thesis
            using completed [of p1 p2 p3 p4] s1 s2 s3 s4 Inr1 Inr2 Inr3 Inr4 by simp
        qed
      qed
    qed
  qed
qed

text \<open>What one call of \<open>run\<close> does, whether it returns or raises.\<close>

lemma run_summary:
  assumes "run C ft vc ir kw p = (R, p')"
  shows "\<exists>a b c.
           extends p (MaskAll (case mask_eclipses_kwargs kw of None \<Rightarrow> [] | Some k \<Rightarrow> k) # a @ b @ c) p'
         \<and> (a = [] \<or> ft \<and> (\<exists>x. a = [x] \<and> is_transit_search x))
         \<and> (b = [] \<or> vc \<and> ft \<and> (\<exists>x. b = [x] \<and> is_vetting x))
         \<and> (c = [] \<or> ir \<and> transit_injector p \<noteq> None \<and> (\<exists>x. c = [x] \<and> is_injection x))
         \<and> (\<forall>reg. R = Inr reg \<longrightarrow>
               reg = results p'
             \<and> (ft \<longrightarrow> a \<noteq> [] \<and> results p' ''transit_finding'' \<noteq> None)
             \<and> (vc \<and> ft \<longrightarrow> b \<noteq> [] \<and> results p' ''vetting'' \<noteq> None)
             \<and> (ir \<and> transit_injector p \<noteq> None \<longrightarrow>
                  c \<noteq> [] \<and> results p' ''injection_retrieval'' \<noteq> None))"
proof -
  let ?mk = "case mask_eclipses_kwargs kw of None \<Rightarrow> [] | Some k \<Rightarrow> k"
  let ?p0 = "log_msg INFO ''Step 1: Eclipse masking'' (log_msg INFO ''Starting mono-cbp pipeline'' p)"
  have m: "extends p [MaskAll ?mk] q" if "mask_eclipses C ?mk ?p0 = (r, q)" for r q
    using mask_eclipses_extends [OF that] by (simp add: extends_def)
  from assms show ?thesis
  proof (cases rule: run_cases)
    case (mask_raised e)
    have "extends p (MaskAll ?mk # [] @ [] @ []) p'" using m [OF mask_raised(1)] by simp
    with mask_raised(2) show ?thesis by blast
  next
    case (search_raised e p1)
    from transit_finding_step_extends [OF search_raised(2)]
    obtain a where a: "extends p1 a p'" "if ft then \<exists>c. a = [c] \<and> is_transit_search c else a = []"
      by blast
    have "extends p (MaskAll ?mk # a @ [] @ []) p'"
      using extends_trans [OF m [OF search_raised(1)] a(1)] by simp
    moreover have "a = [] \<or> ft \<and> (\<exists>x. a = [x] \<and> is_transit_search x)"
      using a(2) by (auto split: if_splits)
    ultimately show ?thesis using search_raised(3) by blast
  next
    case (vetting_raised e p1 p2)
    from transit_finding_step_extends [OF vetting_raised(2)]
    obtain a where a: "extends p1 a p2" "if ft then \<exists>c. a = [c] \<and> is_transit_search c else a = []"
      by blast
    from vetting_step_extends [OF vetting_raised(3)]
    obtain b where b: "extends p2 b p'" "if vc \<and> ft then \<exists>c. b = [c] \<and> is_vetting c else b = []"
      by blast
    have "extends p (MaskAll ?mk # a @ b @ []) p'"
      using extends_trans [OF extends_trans [OF m [OF vetting_raised(1)] a(1)] b(1)] by simp
    moreover have "a = [] \<or> ft \<and> (\<exists>x. a = [x] \<and> is_transit_search x)"
      using a(2) by (auto split: if_splits)
    moreover have "b = [] \<or> vc \<and> ft \<and> (\<exists>x. b = [x] \<and> is_vetting x)"
      using b(2) by (auto split: if_splits)
    ultimately show ?thesis using vetting_raised(4) by blast
  next
    case (injection_raised e p1 p2 p3)
    from transit_finding_step_extends [OF injection_raised(2)]
    obtain a where a: "extends p1 a p2" "if ft then \<exists>c. a = [c] \<and> is_transit_search c else a = []"
      by blast
    from vetting_step_extends [OF injection_raised(3)]
    obtain b where b: "extends p2 b p3" "if vc \<and> ft then \<exists>c. b = [c] \<and> is_vetting c else b = []"
      by blast
    from injection_step_extends [OF injection_raised(4)]
    obtain c where c: "extends p3 c p'"
      "if ir \<and> transit_injector p3 \<noteq> None then \<exists>x. c = [x] \<and> is_injection x else c = []"
      by blast
    have inj: "transit_injector p3 = transit_injector p"
      using m [OF injection_raised(1)] a(1) b(1) by (simp add: extends_def)
    have "extends p (MaskAll ?mk # a @ b @ c) p'"
      using extends_trans [OF extends_trans [OF extends_trans [OF m [OF injection_raised(1)] a(1)] b(1)] c(1)]
      by simp
    moreover have "a = [] \<or> ft \<and> (\<exists>x. a = [x] \<and> is_transit_search x)"
      using a(2) by (auto split: if_splits)
    moreover have "b = [] \<or> vc \<and> ft \<and> (\<exists>x. b = [x] \<and> is_vetting x)"
      using b(2) by (auto split: if_splits)
    moreover have "c = [] \<or> ir \<and> transit_injector p \<noteq> None \<and> (\<exists>x. c = [x] \<and> is_injection x)"
      using c(2) inj by (auto split: if_splits)
    ultimately show ?thesis using injection_raised(5) by blast
  next
    case (completed p1 p2 p3 p4)
    from transit_finding_step_extends [OF completed(2)]
    obtain a where a: "extends p1 a p2" "if ft then \<exists>c. a = [c] \<and> is_transit_search c else a = []"
      by blast
    from vetting_step_extends [OF completed(3)]
    obtain b where b: "extends p2 b p3" "if vc \<and> ft then \<exists>c. b = [c] \<and> is_vetting c else b = []"
      by blast
    from injection_step_extends [OF completed(4)]
    obtain c where c: "extends p3 c p4"
      "if ir \<and> transit_injector p3 \<noteq> None then \<exists>x. c = [x] \<and> is_injection x else c = []"
      by blast
    have inj: "transit_injector p3 = transit_injector p"
      using m [OF completed(1)] a(1) b(1) by (simp add: extends_def)
    have ext: "extends p (MaskAll ?mk # a @ b @ c) p'"
      using extends_trans [OF extends_trans [OF extends_trans [OF m [OF completed(1)] a(1)] b(1)] c(1)]
        completed(5)
      by (simp add: extends_log_msg_right)
    have A: "a = [] \<or> ft \<and> (\<exists>x. a = [x] \<and> is_transit_search x)"
      using a(2) by (auto split: if_splits)
    have B: "b = [] \<or> vc \<and> ft \<and> (\<exists>x. b = [x] \<and> is_vetting x)"
      using b(2) by (auto split: if_splits)
    have C: "c = [] \<or> ir \<and> transit_injector p \<noteq> None \<and> (\<exists>x. c = [x] \<and> is_injection x)"
      using c(2) inj by (auto split: if_splits)
    have res: "results p' = results p4" using completed(5) by simp
    have tf2: "ft \<Longrightarrow> results p2 ''transit_finding'' \<noteq> None"
      using transit_finding_step_effect(7) [OF completed(2)] by simp
    have tf3: "results p3 ''transit_finding'' = results p2 ''transit_finding''"
      using vetting_step_effect(6) [OF completed(3), of "''transit_finding''"] by simp
    have tf4: "results p4 ''transit_finding'' = results p3 ''transit_finding''"
      using injection_step_effect(6) [OF completed(4), of "''transit_finding''"] by simp
    have v3: "vc \<and> ft \<Longrightarrow> results p3 ''vetting'' \<noteq> None"
      using vetting_step_effect(7) [OF completed(3)] by simp
    have v4: "results p4 ''vetting'' = results p3 ''vetting''"
      using injection_step_effect(6) [OF completed(4), of "''vetting''"] by simp
    have i4: "ir \<and> transit_injector p \<noteq> None \<Longrightarrow> results p4 ''injection_retrieval'' \<noteq> None"
      using injection_step_effect(7) [OF completed(4)] inj by simp
    have D: "\<forall>reg. R = Inr reg \<longrightarrow>
               reg = results p'
             \<and> (ft \<longrightarrow> a \<noteq> [] \<and> results p' ''transit_finding'' \<noteq> None)
             \<and> (vc \<and> ft \<longrightarrow> b \<noteq> [] \<and> results p' ''vetting'' \<noteq> None)
             \<and> (ir \<and> transit_injector p \<noteq> None \<longrightarrow>
                  c \<noteq> [] \<and> results p' ''injection_retrieval'' \<noteq> None)"
      using completed(6) res tf2 tf3 tf4 v3 v4 i4 a(2) b(2) c(2) inj
      by (auto split: if_splits)
    from ext A B C D show ?thesis by blast
  qed
qed

lemma transit_search_only:
  "is_transit_search c \<Longrightarrow> \<not> is_vetting c \<and> \<not> is_injection c \<and> \<not> is_masking c"
  by (cases c) simp_all

lemma vetting_only:
  "is_vetting c \<Longrightarrow> \<not> is_transit_search c \<and> \<not> is_injection c \<and> \<not> is_masking c"
  by (cases c) simp_all

lemma injection_only:
  "is_injection c \<Longrightarrow> \<not> is_transit_search c \<and> \<not> is_vetting c \<and> \<not> is_masking c"
  by (cases c) simp_all

lemma extends_unchanged:
  assumes "extends p cs p'" and "\<not> list_ex (\<lambda>c. stage_key c = Some k) cs"
  shows "results p' k = results p k"
  using assms unfolding extends_def by blast

lemma extends_dom:
  assumes "extends p cs p'"
  shows "dom (results p) \<subseteq> dom (results p')"
proof
  fix k assume "k \<in> dom (results p)"
  then have "results p k \<noteq> None" by auto
  moreover have "results p' k \<noteq> results p k \<Longrightarrow> results p' k \<noteq> None"
    using assms unfolding extends_def by blast
  ultimately have "results p' k \<noteq> None" by metis
  then show "k \<in> dom (results p')" by auto
qed

lemma extends_calls: "extends p cs p' \<Longrightarrow> drop (length (calls p)) (calls p') = cs"
  by (simp add: extends_def)

lemma run_extends:
  "\<exists>cs. extends p cs (snd (run C ft vc ir kw p))"
proof -
  have "run C ft vc ir kw p = (fst (run C ft vc ir kw p), snd (run C ft vc ir kw p))" by simp
  from run_summary [OF this] obtain a b c where
    "extends p (MaskAll (case mask_eclipses_kwargs kw of None \<Rightarrow> [] | Some k \<Rightarrow> k) # a @ b @ c)
       (snd (run C ft vc ir kw p))"
    by blast
  then show ?thesis by blast
qed

lemma exec_op_extends: "\<exists>cs. extends p cs (exec_op C op p)"
proof (cases op)
  case (Run ft vc ir kw)
  then show ?thesis using run_extends [of p C ft vc ir kw] by simp
next
  case (MaskEclipses kw)
  have "mask_eclipses C kw p = (fst (mask_eclipses C kw p), snd (mask_eclipses C kw p))" by simp
  from mask_eclipses_extends [OF this] show ?thesis unfolding MaskEclipses by auto
next
  case (FindTransits f od pod)
  have "find_transits C f od pod p = (fst (find_transits C f od pod p), snd (find_transits C f od pod p))"
    by simp
  from find_transits_extends [OF this] show ?thesis unfolding FindTransits by (simp, blast)
next
  case (VetCandidates es dir f od)
  have "vet_candidates C es dir f od p =
      (fst (vet_candidates C es dir f od p), snd (vet_candidates C es dir f od p))"
    by simp
  from vet_candidates_extends [OF this] show ?thesis unfolding VetCandidates by (simp, blast)
next
  case (RunInjectionRetrieval n f od)
  have "run_injection_retrieval C n f od p =
      (fst (run_injection_retrieval C n f od p), snd (run_injection_retrieval C n f od p))"
    by simp
  from run_injection_retrieval_extends [OF this] show ?thesis unfolding RunInjectionRetrieval by (simp, blast)
qed

lemma exec_ops_extends: "\<exists>cs. extends p cs (exec_ops C ops p)"
proof (induction ops arbitrary: p)
  case Nil
  show ?case using extends_refl by auto
next
  case (Cons op ops)
  obtain cs where 1: "extends p cs (exec_op C op p)" using exec_op_extends by blast
  obtain cs' where 2: "extends (exec_op C op p) cs' (exec_ops C ops (exec_op C op p))"
    using Cons.IH by blast
  from extends_trans [OF 1 2] show ?case by auto
qed

lemma stage_key_injection_iff:
  "stage_key c = Some ''injection_retrieval'' \<longleftrightarrow> is_injection c"
  by (cases c) simp_all

lemma run_extends_without_injector:
  assumes "transit_injector p = None"
  shows "\<exists>cs. extends p cs (snd (run C ft vc ir kw p)) \<and> \<not> list_ex is_injection cs"
proof -
  let ?mk = "case mask_eclipses_kwargs kw of None \<Rightarrow> [] | Some k \<Rightarrow> k"
  have "run C ft vc ir kw p = (fst (run C ft vc ir kw p), snd (run C ft vc ir kw p))" by simp
  from run_summary [OF this] obtain a b c where
    ext: "extends p (MaskAll ?mk # a @ b @ c) (snd (run C ft vc ir kw p))"
    and A: "a = [] \<or> ft \<and> (\<exists>x. a = [x] \<and> is_transit_search x)"
    and B: "b = [] \<or> vc \<and> ft \<and> (\<exists>x. b = [x] \<and> is_vetting x)"
    and C: "c = [] \<or> ir \<and> transit_injector p \<noteq> None \<and> (\<exists>x. c = [x] \<and> is_injection x)"
    by blast
  have "c = []" using C assms by simp
  then have "\<not> list_ex is_injection (MaskAll ?mk # a @ b @ c)"
    using A B by (auto simp: list_ex_iff dest: transit_search_only vetting_only)
  with ext show ?thesis by blast
qed

lemma exec_op_extends_without_injector:
  assumes "transit_injector p = None"
  shows "\<exists>cs. extends p cs (exec_op C op p) \<and> \<not> list_ex is_injection cs"
proof (cases op)
  case (Run ft vc ir kw)
  then show ?thesis using run_extends_without_injector [OF assms, of C ft vc ir kw] by simp
next
  case (MaskEclipses kw)
  have "mask_eclipses C kw p = (fst (mask_eclipses C kw p), snd (mask_eclipses C kw p))" by simp
  from mask_eclipses_extends [OF this]
  have "extends p [MaskAll kw] (exec_op C op p)" unfolding MaskEclipses by simp
  moreover have "\<not> list_ex is_injection [MaskAll kw :: 'c call]" by simp
  ultimately show ?thesis by blast
next
  case (FindTransits f od pod)
  have "find_transits C f od pod p = (fst (find_transits C f od pod p), snd (find_transits C f od pod p))"
    by simp
  from find_transits_extends [OF this] obtain c where
    "is_transit_search c" "extends p [c] (exec_op C op p)" unfolding FindTransits by auto
  moreover from this have "\<not> list_ex is_injection [c]" by (auto dest: transit_search_only)
  ultimately show ?thesis by blast
next
  case (VetCandidates es dir f od)
  have "vet_candidates C es dir f od p =
      (fst (vet_candidates C es dir f od p), snd (vet_candidates C es dir f od p))"
    by simp
  from vet_candidates_extends [OF this] obtain c where
    "is_vetting c" "extends p [c] (exec_op C op p)" unfolding VetCandidates by auto
  moreover from this have "\<not> list_ex is_injection [c]" by (auto dest: vetting_only)
  ultimately show ?thesis by blast
next
  case (RunInjectionRetrieval n f od)
  have "run_injection_retrieval C n f od p = (fst (run_injection_retrieval C n f od p), p)"
    using assms by (simp add: run_injection_retrieval_def)
  then have "exec_op C op p = p" unfolding RunInjectionRetrieval by (simp, metis snd_conv)
  then have "extends p [] (exec_op C op p)" by (simp add: extends_refl)
  moreover have "\<not> list_ex is_injection ([] :: 'c call list)" by simp
  ultimately show ?thesis by blast
qed

lemma no_injection_exec_op:
  assumes "no_injection p"
  shows "no_injection (exec_op C op p)"
proof -
  from assms have inj: "transit_injector p = None" by (simp add: no_injection_def)
  from exec_op_extends_without_injector [OF inj, of C op] obtain cs where
    ext: "extends p cs (exec_op C op p)" and cs: "\<not> list_ex is_injection cs"
    by blast
  have "\<not> list_ex (\<lambda>c. stage_key c = Some ''injection_retrieval'') cs"
    using cs by (simp add: stage_key_injection_iff)
  from extends_unchanged [OF ext this]
  have "results (exec_op C op p) ''injection_retrieval'' = None"
    using assms by (simp add: no_injection_def)
  moreover have "transit_injector (exec_op C op p) = None"
    using ext inj by (simp add: extends_def)
  moreover have "\<not> list_ex is_injection (calls (exec_op C op p))"
    using ext cs assms by (auto simp: extends_def no_injection_def list_ex_iff)
  ultimately show ?thesis by (simp add: no_injection_def)
qed

lemma no_injection_exec_ops:
  "no_injection p \<Longrightarrow> no_injection (exec_ops C ops p)"
  by (induction ops arbitrary: p) (simp_all add: no_injection_exec_op)

lemma no_injection_init:
  "tmp = None \<or> tmp = Some [] \<Longrightarrow> no_injection (init dd od tmp n ex nt w)"
  by (auto simp: no_injection_def init_def Let_def)

text \<open>With no transit injector, asking \<open>run\<close> for injection-retrieval only adds a warning.\<close>

lemma run_without_injector:
  assumes "transit_injector p = None"
  shows "run C ft vc True kw p =
     (case run C ft vc False kw p of
        (Inl e, q) \<Rightarrow> (Inl e, q)
      | (Inr reg, q) \<Rightarrow>
          (Inr reg,
           q\<lparr>logged := butlast (logged q) @
              [(WARNING, ''Injection-retrieval requested but transit models not provided - skipping''),
               (INFO, ''Pipeline complete'')]\<rparr>))"
proof -
  let ?p0 = "log_msg INFO ''Step 1: Eclipse masking'' (log_msg INFO ''Starting mono-cbp pipeline'' p)"
  let ?mk = "case mask_eclipses_kwargs kw of None \<Rightarrow> [] | Some k \<Rightarrow> k"
  obtain r1 p1 where s1: "mask_eclipses C ?mk ?p0 = (r1, p1)"
    by (cases "mask_eclipses C ?mk ?p0") auto
  obtain r2 p2 where s2: "transit_finding_step C ft kw p1 = (r2, p2)"
    by (cases "transit_finding_step C ft kw p1") auto
  obtain r3 p3 where s3: "vetting_step C vc ft kw p2 = (r3, p3)"
    by (cases "vetting_step C vc ft kw p2") auto
  have inj: "transit_injector p3 = None"
    using mask_eclipses_effect(3) [OF s1] transit_finding_step_effect(2) [OF s2]
      vetting_step_effect(2) [OF s3] assms
    by simp
  show ?thesis
  proof (cases r1)
    case (Inl e)
    then show ?thesis using s1 by (simp add: run_def)
  next
    case Inr1: (Inr u1)
    show ?thesis
    proof (cases r2)
      case (Inl e)
      then show ?thesis using s1 s2 Inr1 by (simp add: run_def)
    next
      case Inr2: (Inr u2)
      show ?thesis
      proof (cases r3)
        case (Inl e)
        then show ?thesis using s1 s2 s3 Inr1 Inr2 by (simp add: run_def)
      next
        case Inr3: (Inr u3)
        then show ?thesis
          using s1 s2 s3 Inr1 Inr2 inj
          by (simp add: run_def injection_step_without_injector injection_step_not_requested
              Let_def log_msg_def)
      qed
    qed
  qed
qed

section \<open>Evaluating the examples\<close>

lemmas pipeline_defs =
  run_def and_then_def mask_eclipses_def find_transits_def vet_candidates_def
  run_injection_retrieval_def find_transits_kw_def vet_candidates_kw_def
  run_injection_retrieval_kw_def transit_finding_step_def vetting_step_def injection_step_def
  log_msg_def record_call_def init_def no_ft_kwargs_def no_vet_kwargs_def no_ir_kwargs_def
  no_run_kwargs_def os_path_join_def digit_char_def registry_entry_def Let_def

lemma demo_full_run:
  "run demo True True False no_run_kwargs demo_init =
     (Inr [''transit_finding'' \<mapsto> [''event-1'', ''event-2''],
           ''vetting'' \<mapsto> [''snippet-1'', ''snippet-2'']],
      \<lparr>data_dir = ''./data'', output_dir = ''./results'', config_n_injections = 100,
       transit_injector = None,
       results = [''transit_finding'' \<mapsto> [''event-1'', ''event-2''],
                  ''vetting'' \<mapsto> [''snippet-1'', ''snippet-2'']],
       world = 1,
       logged =
         [(INFO, ''Initialized pipeline with 3 targets''),
          (INFO, ''Transit models not provided - injection-retrieval will not be available''),
          (INFO, ''Starting mono-cbp pipeline''),
          (INFO, ''Step 1: Eclipse masking''),
          (INFO, ''Eclipse masking complete''),
          (INFO, ''Step 2: Transit finding''),
          (INFO, ''Transit finding complete: 2 events detected''),
          (INFO, ''Step 3: Model comparison vetting''),
          (INFO, ''Passing 2 event snippets''),
          (INFO, ''Vetting 2 candidates''),
          (INFO, ''Model comparison complete: 2 events vetted''),
          (INFO, ''Pipeline complete'')],
       calls =
         [MaskAll [],
          ProcessDirectory ''./data'' ''transit_events.txt'' ''./results'' None,
          CompareEvents (Snippets [''snippet-1'', ''snippet-2''])
            ''vetting_results.csv'' ''./results'']\<rparr>)"
  by (simp add: pipeline_defs demo_def demo_init_def str_nat.simps)

section \<open>The absent eclipse\<close>

text \<open>
  C4. For every sequence of phases: when \<open>pos\<close> is not-a-number, or \<open>width\<close> is
  not-a-number, or \<open>width == 0\<close>, \<open>get_eclipse_indices\<close> returns the empty index
  array and \<open>get_eclipse_mask\<close> returns (it does not raise) a mask as long as
  \<open>phases\<close> that is False everywhere.
\<close>

theorem absent_eclipse_selects_nothing:
  assumes "isnan pos \<or> isnan width \<or> f_eq width (Fin 0)"
  shows "get_eclipse_indices phases pos width = []
       \<and> get_eclipse_mask phases pos width = Inr (replicate (length phases) False)"
  using assms by (simp add: get_eclipse_mask_def get_eclipse_indices_def)

theorem absent_eclipse_selects_nothing_witness:
  "get_eclipse_indices [Fin (1 / 2), Fin 0, NaN] NaN (lit (1 / 10)) = []
 \<and> get_eclipse_mask [Fin (1 / 2), Fin 0, NaN] NaN (lit (1 / 10)) = Inr [False, False, False]
 \<and> get_eclipse_indices [Fin (1 / 2), Fin 0, NaN] (Fin (1 / 2)) NaN = []
 \<and> get_eclipse_mask [Fin (1 / 2), Fin 0, NaN] (Fin (1 / 2)) NaN = Inr [False, False, False]
 \<and> get_eclipse_indices [Fin (1 / 2), Fin 0, NaN] (Fin (1 / 2)) (Fin 0) = []
 \<and> get_eclipse_mask [Fin (1 / 2), Fin 0, NaN] (Fin (1 / 2)) (Fin 0) = Inr [False, False, False]"
  using absent_eclipse_selects_nothing [of NaN "lit (1 / 10)" "[Fin (1 / 2), Fin 0, NaN]"]
    absent_eclipse_selects_nothing [of "Fin (1 / 2)" NaN "[Fin (1 / 2), Fin 0, NaN]"]
    absent_eclipse_selects_nothing [of "Fin (1 / 2)" "Fin 0" "[Fin (1 / 2), Fin 0, NaN]"]
  by (simp add: numeral_3_eq_3)

section \<open>Eclipses next to the seam of the phase circle\<close>

text \<open>
  C3. For \<open>pos\<close> and \<open>width\<close> that are not not-a-number, \<open>width\<close> not zero:
  when \<open>pos > 0.95\<close> the selected indices are exactly the \<open>i\<close> with
  \<open>phases[i] >= pos - width/2\<close> or \<open>phases[i] <= pos + width/2 - 1\<close>; when
  \<open>pos < 0.05\<close> they are exactly the \<open>i\<close> with \<open>phases[i] >= pos - width/2 + 1\<close>
  or \<open>phases[i] <= pos + width/2\<close>. For \<open>pos = 0.99\<close> and \<open>width = 0.1\<close> a
  sample at phase \<open>0.02\<close> is masked and a sample at phase \<open>0.5\<close> is not.
\<close>

theorem wraparound_selection:
  assumes "\<not> isnan pos" and "\<not> isnan width" and "\<not> f_eq width (Fin 0)"
  shows "(f_gt pos (lit (95 / 100)) \<longrightarrow>
            get_eclipse_indices phases pos width =
              filter (\<lambda>i. f_ge (phases ! i) (f_sub pos (f_div width (Fin 2)))
                         \<or> f_le (phases ! i) (f_sub (f_add pos (f_div width (Fin 2))) (Fin 1)))
                [0..<length phases])
       \<and> (f_lt pos (lit (5 / 100)) \<longrightarrow>
            get_eclipse_indices phases pos width =
              filter (\<lambda>i. f_ge (phases ! i) (f_add (f_sub pos (f_div width (Fin 2))) (Fin 1))
                         \<or> f_le (phases ! i) (f_add pos (f_div width (Fin 2))))
                [0..<length phases])
       \<and> get_eclipse_mask [lit (2 / 100), lit (5 / 10)] (lit (99 / 100)) (lit (1 / 10))
            = Inr [True, False]"
proof (intro conjI impI)
  assume "f_gt pos (lit (95 / 100))"
  with assms show "get_eclipse_indices phases pos width =
              filter (\<lambda>i. f_ge (phases ! i) (f_sub pos (f_div width (Fin 2)))
                         \<or> f_le (phases ! i) (f_sub (f_add pos (f_div width (Fin 2))) (Fin 1)))
                [0..<length phases]"
    by (simp add: get_eclipse_indices_def np_where_map)
next
  assume lt: "f_lt pos (lit (5 / 100))"
  have "\<not> f_gt pos (lit (95 / 100))"
    using lt by (cases pos) (simp_all add: float_eval)
  with assms lt show "get_eclipse_indices phases pos width =
              filter (\<lambda>i. f_ge (phases ! i) (f_add (f_sub pos (f_div width (Fin 2))) (Fin 1))
                         \<or> f_le (phases ! i) (f_add pos (f_div width (Fin 2))))
                [0..<length phases]"
    by (simp add: get_eclipse_indices_def np_where_map)
next
  show "get_eclipse_mask [lit (2 / 100), lit (5 / 10)] (lit (99 / 100)) (lit (1 / 10))
            = Inr [True, False]"
    by (simp add: get_eclipse_mask_def get_eclipse_indices_def np_where_def float_eval upt_rec)
qed

theorem wraparound_selection_witness:
  "f_gt (lit (99 / 100)) (lit (95 / 100))
 \<and> get_eclipse_indices [lit (2 / 100), lit (5 / 10), lit (97 / 100)]
      (lit (99 / 100)) (lit (1 / 10)) = [0, 2]
 \<and> f_lt (lit (1 / 100)) (lit (5 / 100))
 \<and> get_eclipse_indices [lit (2 / 100), lit (5 / 10), lit (98 / 100)]
      (lit (1 / 100)) (lit (1 / 10)) = [0, 2]"
proof -
  let ?hi = "[lit (2 / 100), lit (5 / 10), lit (97 / 100)]"
  let ?lo = "[lit (2 / 100), lit (5 / 10), lit (98 / 100)]"
  have h: "\<not> isnan (lit (99 / 100))" "\<not> isnan (lit (1 / 100))" "\<not> isnan (lit (1 / 10))"
    "\<not> f_eq (lit (1 / 10)) (Fin 0)"
    by (simp_all add: float_eval)
  have above: "f_gt (lit (99 / 100)) (lit (95 / 100))" by (simp add: float_eval)
  have below: "f_lt (lit (1 / 100)) (lit (5 / 100))" by (simp add: float_eval)
  have "get_eclipse_indices ?hi (lit (99 / 100)) (lit (1 / 10)) =
          filter (\<lambda>i. f_ge (?hi ! i) (f_sub (lit (99 / 100)) (f_div (lit (1 / 10)) (Fin 2)))
                     \<or> f_le (?hi ! i)
                          (f_sub (f_add (lit (99 / 100)) (f_div (lit (1 / 10)) (Fin 2))) (Fin 1)))
            [0..<length ?hi]"
    using wraparound_selection [OF h(1) h(3) h(4), of ?hi] above by blast
  also have "\<dots> = [0, 2]" by (simp add: float_eval upt_rec)
  finally have hi: "get_eclipse_indices ?hi (lit (99 / 100)) (lit (1 / 10)) = [0, 2]" .
  have "get_eclipse_indices ?lo (lit (1 / 100)) (lit (1 / 10)) =
          filter (\<lambda>i. f_ge (?lo ! i)
                          (f_add (f_sub (lit (1 / 100)) (f_div (lit (1 / 10)) (Fin 2))) (Fin 1))
                     \<or> f_le (?lo ! i) (f_add (lit (1 / 100)) (f_div (lit (1 / 10)) (Fin 2))))
            [0..<length ?lo]"
    using wraparound_selection [OF h(2) h(3) h(4), of ?lo] below by blast
  also have "\<dots> = [0, 2]" by (simp add: float_eval upt_rec)
  finally have lo: "get_eclipse_indices ?lo (lit (1 / 100)) (lit (1 / 10)) = [0, 2]" .
  from above hi below lo show ?thesis by blast
qed

text \<open>
  C9. At \<open>pos = 0.95\<close> and at \<open>pos = 0.05\<close> exactly (\<open>width\<close> neither
  not-a-number nor zero) the rule without wraparound applies: the selected indices are
  the \<open>i\<close> with \<open>phases[i] >= pos - width/2\<close> and \<open>phases[i] <= pos + width/2\<close>.
  The same holds for every \<open>pos\<close> that is neither above \<open>0.95\<close> nor below
  \<open>0.05\<close>: the wraparound branches need a strict inequality.
\<close>

theorem boundary_positions_do_not_wrap:
  assumes "\<not> isnan width" and "\<not> f_eq width (Fin 0)"
  shows "(pos = lit (95 / 100) \<or> pos = lit (5 / 100) \<longrightarrow>
            get_eclipse_indices phases pos width =
              filter (\<lambda>i. f_ge (phases ! i) (f_sub pos (f_div width (Fin 2)))
                         \<and> f_le (phases ! i) (f_add pos (f_div width (Fin 2))))
                [0..<length phases])
       \<and> (\<not> isnan pos \<and> \<not> f_gt pos (lit (95 / 100)) \<and> \<not> f_lt pos (lit (5 / 100)) \<longrightarrow>
            get_eclipse_indices phases pos width =
              filter (\<lambda>i. f_ge (phases ! i) (f_sub pos (f_div width (Fin 2)))
                         \<and> f_le (phases ! i) (f_add pos (f_div width (Fin 2))))
                [0..<length phases])"
proof -
  have general: "get_eclipse_indices phases p width =
      filter (\<lambda>i. f_ge (phases ! i) (f_sub p (f_div width (Fin 2)))
                 \<and> f_le (phases ! i) (f_add p (f_div width (Fin 2))))
        [0..<length phases]"
    if "\<not> isnan p" "\<not> f_gt p (lit (95 / 100))" "\<not> f_lt p (lit (5 / 100))" for p
    using assms that by (simp add: get_eclipse_indices_def np_where_map)
  have b95: "\<not> isnan (lit (95 / 100))" "\<not> f_gt (lit (95 / 100)) (lit (95 / 100))"
    "\<not> f_lt (lit (95 / 100)) (lit (5 / 100))"
    by (simp_all add: float_eval)
  have b5: "\<not> isnan (lit (5 / 100))" "\<not> f_gt (lit (5 / 100)) (lit (95 / 100))"
    "\<not> f_lt (lit (5 / 100)) (lit (5 / 100))"
    by (simp_all add: float_eval)
  show ?thesis
    using general [OF b95] general [OF b5] general [of pos] by blast
qed

theorem boundary_positions_do_not_wrap_witness:
  "get_eclipse_indices [lit (2 / 100), lit (9 / 10)] (lit (95 / 100)) (lit (1 / 5)) = [1]
 \<and> get_eclipse_indices [lit (98 / 100), lit (1 / 10)] (lit (5 / 100)) (lit (1 / 5)) = [1]"
proof -
  let ?a = "[lit (2 / 100), lit (9 / 10)]"
  let ?b = "[lit (98 / 100), lit (1 / 10)]"
  have h: "\<not> isnan (lit (1 / 5))" "\<not> f_eq (lit (1 / 5)) (Fin 0)"
    by (simp_all add: float_eval)
  have "get_eclipse_indices ?a (lit (95 / 100)) (lit (1 / 5)) =
          filter (\<lambda>i. f_ge (?a ! i) (f_sub (lit (95 / 100)) (f_div (lit (1 / 5)) (Fin 2)))
                     \<and> f_le (?a ! i) (f_add (lit (95 / 100)) (f_div (lit (1 / 5)) (Fin 2))))
            [0..<length ?a]"
    using boundary_positions_do_not_wrap [OF h, of "lit (95 / 100)" ?a] by blast
  also have "\<dots> = [1]" by (simp add: float_eval upt_rec)
  finally have a: "get_eclipse_indices ?a (lit (95 / 100)) (lit (1 / 5)) = [1]" .
  have "get_eclipse_indices ?b (lit (5 / 100)) (lit (1 / 5)) =
          filter (\<lambda>i. f_ge (?b ! i) (f_sub (lit (5 / 100)) (f_div (lit (1 / 5)) (Fin 2)))
                     \<and> f_le (?b ! i) (f_add (lit (5 / 100)) (f_div (lit (1 / 5)) (Fin 2))))
            [0..<length ?b]"
    using boundary_positions_do_not_wrap [OF h, of "lit (5 / 100)" ?b] by blast
  also have "\<dots> = [1]" by (simp add: float_eval upt_rec)
  finally have b: "get_eclipse_indices ?b (lit (5 / 100)) (lit (1 / 5)) = [1]" .
  from a b show ?thesis by blast
qed

section \<open>Eclipses away from the seam\<close>

text \<open>
  C5 as the specification states it, for every \<open>width >= 0\<close>, fails at
  \<open>width = 0\<close>: with \<open>pos = 0.5\<close> the sample at phase \<open>0.5\<close> lies in the closed
  interval \<open>[pos - width/2, pos + width/2]\<close>, and the guard for an absent eclipse
  leaves it unmasked.
\<close>

theorem open_interval_mask_counterexample:
  "f_gt (lit (5 / 10)) (lit (5 / 100)) \<and> f_lt (lit (5 / 10)) (lit (95 / 100))
 \<and> f_ge (Fin 0) (Fin 0)
 \<and> f_le (f_sub (lit (5 / 10)) (f_div (Fin 0) (Fin 2))) ([lit (5 / 10)] ! 0)
 \<and> f_le ([lit (5 / 10)] ! 0) (f_add (lit (5 / 10)) (f_div (Fin 0) (Fin 2)))
 \<and> get_eclipse_mask [lit (5 / 10)] (lit (5 / 10)) (Fin 0) = Inr [False]"
  by (simp add: get_eclipse_mask_def get_eclipse_indices_def float_eval)

text \<open>
  C5, amended. For every \<open>pos\<close> in the open interval \<open>(0.05, 0.95)\<close> and every
  \<open>width > 0\<close>, \<open>get_eclipse_mask\<close> returns a mask as long as \<open>phases\<close> with
  \<open>mask[i]\<close> True exactly when \<open>pos - width/2 <= phases[i] <= pos + width/2\<close>.
\<close>

theorem open_interval_mask:
  assumes "f_gt pos (lit (5 / 100))" and "f_lt pos (lit (95 / 100))" and "f_gt width (Fin 0)"
  shows "\<exists>m. get_eclipse_mask phases pos width = Inr m \<and> length m = length phases
           \<and> (\<forall>i < length phases.
                 m ! i = (f_le (f_sub pos (f_div width (Fin 2))) (phases ! i)
                        \<and> f_le (phases ! i) (f_add pos (f_div width (Fin 2)))))"
proof -
  let ?P = "\<lambda>p. f_ge p (f_sub pos (f_div width (Fin 2))) \<and> f_le p (f_add pos (f_div width (Fin 2)))"
  have pos: "\<not> isnan pos" "\<not> f_gt pos (lit (95 / 100))" "\<not> f_lt pos (lit (5 / 100))"
    using assms(1,2) by (cases pos; simp add: float_eval)+
  have width: "\<not> isnan width" "\<not> f_eq width (Fin 0)"
    using assms(3) by (cases width; simp add: f_gt_def)+
  have "get_eclipse_indices phases pos width = np_where (map ?P phases)"
    using pos width by (simp add: get_eclipse_indices_def)
  then have "get_eclipse_mask phases pos width = Inr (map ?P phases)"
    by (rule get_eclipse_mask_indices)
  then show ?thesis by (simp add: f_ge_def)
qed

theorem open_interval_mask_witness:
  "f_gt (lit (5 / 10)) (lit (5 / 100)) \<and> f_lt (lit (5 / 10)) (lit (95 / 100))
 \<and> f_gt (lit (1 / 5)) (Fin 0)
 \<and> get_eclipse_mask [lit (39 / 100), lit (2 / 5), lit (5 / 10), lit (3 / 5), lit (61 / 100), NaN]
      (lit (5 / 10)) (lit (1 / 5)) = Inr [False, True, True, True, False, False]"
proof -
  let ?ph = "[lit (39 / 100), lit (2 / 5), lit (5 / 10), lit (3 / 5), lit (61 / 100), NaN]"
  have h: "f_gt (lit (5 / 10)) (lit (5 / 100))" "f_lt (lit (5 / 10)) (lit (95 / 100))"
    "f_gt (lit (1 / 5)) (Fin 0)"
    by (simp_all add: float_eval)
  from open_interval_mask [OF h, of ?ph]
  obtain m where m: "get_eclipse_mask ?ph (lit (5 / 10)) (lit (1 / 5)) = Inr m" "length m = 6"
    and nth: "\<forall>i < 6. m ! i = (f_le (f_sub (lit (5 / 10)) (f_div (lit (1 / 5)) (Fin 2))) (?ph ! i)
        \<and> f_le (?ph ! i) (f_add (lit (5 / 10)) (f_div (lit (1 / 5)) (Fin 2))))"
    by auto
  have ev: "map (\<lambda>i. f_le (f_sub (lit (5 / 10)) (f_div (lit (1 / 5)) (Fin 2))) (?ph ! i)
        \<and> f_le (?ph ! i) (f_add (lit (5 / 10)) (f_div (lit (1 / 5)) (Fin 2)))) [0, 1, 2, 3, 4, 5]
      = [False, True, True, True, False, False]"
    by (simp add: float_eval)
  have "m = [False, True, True, True, False, False]"
  proof (rule nth_equalityI)
    show "length m = length [False, True, True, True, False, False]" using m(2) by simp
  next
    fix i assume "i < length m"
    then have "i < 6" using m(2) by simp
    then consider "i = 0" | "i = 1" | "i = 2" | "i = 3" | "i = 4" | "i = 5" by linarith
    then show "m ! i = [False, True, True, True, False, False] ! i"
      using nth ev by cases simp_all
  qed
  with m h show ?thesis by simp
qed

section \<open>The range of the phases\<close>

text \<open>
  C6 as the specification states it, every phase in the half-open interval
  \<open>[centre - 0.5, centre + 0.5)\<close> for every time and every \<open>period > 0\<close>, fails in
  double precision. For \<open>period = 1\<close>, \<open>t0 = 0\<close>, \<open>centre = 0.5\<close> and the time
  \<open>-2^-60\<close>, the remainder \<open>(-2^-60) % 1.0\<close> is \<open>-2^-60 + 1.0\<close> rounded, which is
  \<open>1.0\<close>, and the phase is \<open>1.0 = centre + 0.5\<close>. For the smallest positive
  period \<open>2^-1074\<close> and the time \<open>1\<close>, the division overflows to infinity, whose
  remainder is not-a-number, and so is the phase.
\<close>

theorem time_to_phase_range_counterexample:
  "f_gt (Fin 1) (Fin 0)
 \<and> time_to_phase [Fin (- (1 / 2 ^ 60))] (Fin 1) (Fin 0) (lit (5 / 10)) = [Fin 1]
 \<and> f_add (lit (5 / 10)) (lit (5 / 10)) = Fin 1
 \<and> \<not> f_lt (Fin 1) (f_add (lit (5 / 10)) (lit (5 / 10)))
 \<and> f_gt (Fin (1 / 2 ^ 1074)) (Fin 0)
 \<and> time_to_phase [Fin 1] (Fin (1 / 2 ^ 1074)) (Fin 0) (lit (5 / 10)) = [NaN]
 \<and> \<not> f_ge NaN (f_sub (lit (5 / 10)) (lit (5 / 10)))"
proof -
  have a: "time_to_phase [Fin (- (1 / 2 ^ 60))] (Fin 1) (Fin 0) (lit (5 / 10)) = [Fin 1]"
    by (simp add: phase_eval float_eval del: f_fmod.simps)
  have b: "f_add (lit (5 / 10)) (lit (5 / 10)) = Fin 1"
    by (simp add: float_eval)
  have "time_to_phase [Fin 1] (Fin p) (Fin 0) (lit (5 / 10)) =
          [f_add (np_mod (f_div (Fin 1) (Fin p)) (Fin 1)) (Fin 0)]" for p
    by (simp add: time_to_phase_def cycles_def start_phase_def float_eval del: f_div.simps)
  then have "time_to_phase [Fin 1] (Fin (1 / 2 ^ 1074)) (Fin 0) (lit (5 / 10)) =
          [f_add (np_mod PInf (Fin 1)) (Fin 0)]"
    by (simp only: tiny_period_overflow)
  then have c: "time_to_phase [Fin 1] (Fin (1 / 2 ^ 1074)) (Fin 0) (lit (5 / 10)) = [NaN]"
    by (simp add: np_mod_def)
  have d: "f_gt (Fin (1 / 2 ^ 1074)) (Fin 0)" by (simp add: f_gt_def)
  have e: "f_gt (Fin 1) (Fin 0)" "\<not> f_ge NaN (f_sub (lit (5 / 10)) (lit (5 / 10)))"
    by (simp_all add: float_eval)
  have f: "\<not> f_lt (Fin 1) (f_add (lit (5 / 10)) (lit (5 / 10)))"
    unfolding b by simp
  from a b c d e f show ?thesis by blast
qed

text \<open>
  C6, amended. For every time \<open>t\<close>, \<open>time_to_phase\<close> returns
  \<open>((t - t0') / period) % 1.0 + (centre - 0.5)\<close> with
  \<open>t0' = t0 + (centre - 0.5) * period\<close>, every operation in double precision. When
  the quotient \<open>(t - t0') / period\<close> is finite, the phase lies in the closed interval
  from \<open>centre - 0.5\<close> to \<open>(centre - 0.5) + 1.0\<close>, both computed in double
  precision; when it is not, the phase is not-a-number.
\<close>

theorem time_to_phase_closed_range:
  "length (time_to_phase tms period t0 centre) = length tms
 \<and> (\<forall>i < length tms.
        time_to_phase tms period t0 centre ! i =
          f_add (np_mod (f_div (f_sub (tms ! i)
                                  (f_add t0 (f_mul (f_sub centre (lit (5 / 10))) period)))
                               period) (Fin 1))
                (f_sub centre (lit (5 / 10))))
 \<and> (\<forall>i < length tms.
        isfinite (cycles (tms ! i) period t0 centre) \<longrightarrow>
          f_le (start_phase centre) (time_to_phase tms period t0 centre ! i)
        \<and> f_le (time_to_phase tms period t0 centre ! i) (f_add (start_phase centre) (Fin 1)))
 \<and> (\<forall>i < length tms.
        \<not> isfinite (cycles (tms ! i) period t0 centre) \<longrightarrow>
          isnan (time_to_phase tms period t0 centre ! i))"
proof (intro conjI allI impI)
  show "length (time_to_phase tms period t0 centre) = length tms"
    by (simp add: time_to_phase_def)
next
  fix i assume "i < length tms"
  then show "time_to_phase tms period t0 centre ! i =
          f_add (np_mod (f_div (f_sub (tms ! i)
                                  (f_add t0 (f_mul (f_sub centre (lit (5 / 10))) period)))
                               period) (Fin 1))
                (f_sub centre (lit (5 / 10)))"
    by (simp add: time_to_phase_def cycles_def start_phase_def)
next
  fix i assume i: "i < length tms" and fin: "isfinite (cycles (tms ! i) period t0 centre)"
  have nth: "time_to_phase tms period t0 centre ! i =
      f_add (np_mod (cycles (tms ! i) period t0 centre) (Fin 1)) (start_phase centre)"
    using i by (simp add: time_to_phase_def)
  show "f_le (start_phase centre) (time_to_phase tms period t0 centre ! i)"
    unfolding nth using phase_range [OF fin] by (rule conjunct1)
  show "f_le (time_to_phase tms period t0 centre ! i) (f_add (start_phase centre) (Fin 1))"
    unfolding nth using phase_range [OF fin] by (rule conjunct2)
next
  fix i assume i: "i < length tms" and inf: "\<not> isfinite (cycles (tms ! i) period t0 centre)"
  have "time_to_phase tms period t0 centre ! i =
      f_add (np_mod (cycles (tms ! i) period t0 centre) (Fin 1)) (start_phase centre)"
    using i by (simp add: time_to_phase_def)
  then show "isnan (time_to_phase tms period t0 centre ! i)"
    by (simp add: np_mod_not_finite [OF inf])
qed

theorem time_to_phase_closed_range_witness:
  "time_to_phase [Fin (- (1 / 2 ^ 60)), lit (125 / 100), lit (- (25 / 100))]
      (Fin 1) (Fin 0) (lit (5 / 10)) = [Fin 1, lit (25 / 100), lit (75 / 100)]
 \<and> isfinite (cycles (Fin (- (1 / 2 ^ 60))) (Fin 1) (Fin 0) (lit (5 / 10)))
 \<and> start_phase (lit (5 / 10)) = Fin 0
 \<and> f_add (start_phase (lit (5 / 10))) (Fin 1) = Fin 1
 \<and> f_le (Fin 0) (time_to_phase [Fin (- (1 / 2 ^ 60)), lit (125 / 100), lit (- (25 / 100))]
                    (Fin 1) (Fin 0) (lit (5 / 10)) ! 0)
 \<and> f_le (time_to_phase [Fin (- (1 / 2 ^ 60)), lit (125 / 100), lit (- (25 / 100))]
           (Fin 1) (Fin 0) (lit (5 / 10)) ! 0) (Fin 1)"
proof -
  let ?t = "[Fin (- (1 / 2 ^ 60)), lit (125 / 100), lit (- (25 / 100))]"
  have fin: "isfinite (cycles (?t ! 0) (Fin 1) (Fin 0) (lit (5 / 10)))"
    by (simp add: cycles_def start_phase_def float_eval)
  have sp: "start_phase (lit (5 / 10)) = Fin 0" "f_add (start_phase (lit (5 / 10))) (Fin 1) = Fin 1"
    and one: "f_add (Fin 0) (Fin 1) = Fin 1"
    by (simp_all add: start_phase_def float_eval)
  have ev: "time_to_phase ?t (Fin 1) (Fin 0) (lit (5 / 10)) = [Fin 1, lit (25 / 100), lit (75 / 100)]"
    by (simp add: phase_eval float_eval del: f_fmod.simps)
  have i: "0 < length ?t" by simp
  from time_to_phase_closed_range [of ?t "Fin 1" "Fin 0" "lit (5 / 10)"]
  have "\<forall>i < length ?t.
        isfinite (cycles (?t ! i) (Fin 1) (Fin 0) (lit (5 / 10))) \<longrightarrow>
          f_le (start_phase (lit (5 / 10))) (time_to_phase ?t (Fin 1) (Fin 0) (lit (5 / 10)) ! i)
        \<and> f_le (time_to_phase ?t (Fin 1) (Fin 0) (lit (5 / 10)) ! i)
            (f_add (start_phase (lit (5 / 10))) (Fin 1))"
    by blast
  with i fin have "f_le (start_phase (lit (5 / 10))) (time_to_phase ?t (Fin 1) (Fin 0) (lit (5 / 10)) ! 0)
        \<and> f_le (time_to_phase ?t (Fin 1) (Fin 0) (lit (5 / 10)) ! 0)
            (f_add (start_phase (lit (5 / 10))) (Fin 1))"
    by blast
  then have r: "f_le (Fin 0) (time_to_phase ?t (Fin 1) (Fin 0) (lit (5 / 10)) ! 0)
        \<and> f_le (time_to_phase ?t (Fin 1) (Fin 0) (lit (5 / 10)) ! 0) (Fin 1)"
    by (simp only: sp(1) one)
  have fin': "isfinite (cycles (Fin (- (1 / 2 ^ 60))) (Fin 1) (Fin 0) (lit (5 / 10)))"
    using fin by simp
  from ev fin' sp r show ?thesis by blast
qed

section \<open>The stages of a run\<close>

text \<open>
  C1 as the specification states it, for every call of \<open>run\<close>, fails on an instance
  that has run before: after a full run, \<open>run(find_transits=False,
  vet_candidates=True)\<close> calls the masker only, and the registry it returns still holds
  the \<open>vetting\<close> entry of the earlier run.
\<close>

theorem run_stage_gating_counterexample:
  "calls (snd (run demo False True False no_run_kwargs demo_after_full_run)) =
     calls demo_after_full_run @ [MaskAll []]
 \<and> registry_entry ''vetting'' (fst (run demo False True False no_run_kwargs demo_after_full_run)) =
     Inr (Some [''snippet-1'', ''snippet-2''])"
  by (simp add: demo_after_full_run_def demo_full_run) (simp add: pipeline_defs demo_def)

text \<open>
  C1, amended. For every call of \<open>run\<close>: eclipse masking is the first
  collaborator call, whatever follows; a transit search is called only if
  \<open>find_transits\<close> is true, and vetting only if \<open>vet_candidates\<close> and
  \<open>find_transits\<close> are both true. When the call returns, the transit search was
  called exactly if \<open>find_transits\<close> is true and the registry then has a
  \<open>transit_finding\<close> entry; vetting was called exactly if \<open>vet_candidates\<close>
  and \<open>find_transits\<close> are true and the registry then has a \<open>vetting\<close>
  entry; the entry of a stage that did not run is the one the registry held before the
  call. So \<open>run(find_transits=False, vet_candidates=True)\<close> performs no vetting and
  adds no \<open>vetting\<close> key: the returned registry has one only if an earlier run of
  the same instance stored it.
\<close>

theorem run_stage_gating:
  "\<exists>rest. calls (snd (run C ft vc ir kw p)) =
            calls p @ MaskAll (case mask_eclipses_kwargs kw of None \<Rightarrow> [] | Some k \<Rightarrow> k) # rest
     \<and> (list_ex is_transit_search rest \<longrightarrow> ft)
     \<and> (list_ex is_vetting rest \<longrightarrow> vc \<and> ft)
     \<and> (\<forall>reg. fst (run C ft vc ir kw p) = Inr reg \<longrightarrow>
           (list_ex is_transit_search rest \<longleftrightarrow> ft)
         \<and> (list_ex is_vetting rest \<longleftrightarrow> (vc \<and> ft))
         \<and> (if ft then reg ''transit_finding'' \<noteq> None
             else reg ''transit_finding'' = results p ''transit_finding'')
         \<and> (if vc \<and> ft then reg ''vetting'' \<noteq> None
             else reg ''vetting'' = results p ''vetting''))"
proof -
  let ?mk = "case mask_eclipses_kwargs kw of None \<Rightarrow> [] | Some k \<Rightarrow> k"
  let ?R = "fst (run C ft vc ir kw p)" and ?p' = "snd (run C ft vc ir kw p)"
  have "run C ft vc ir kw p = (?R, ?p')" by simp
  from run_summary [OF this] obtain a b c where
    ext: "extends p (MaskAll ?mk # a @ b @ c) ?p'"
    and A: "a = [] \<or> ft \<and> (\<exists>x. a = [x] \<and> is_transit_search x)"
    and B: "b = [] \<or> vc \<and> ft \<and> (\<exists>x. b = [x] \<and> is_vetting x)"
    and C: "c = [] \<or> ir \<and> transit_injector p \<noteq> None \<and> (\<exists>x. c = [x] \<and> is_injection x)"
    and D: "\<forall>reg. ?R = Inr reg \<longrightarrow>
               reg = results ?p'
             \<and> (ft \<longrightarrow> a \<noteq> [] \<and> results ?p' ''transit_finding'' \<noteq> None)
             \<and> (vc \<and> ft \<longrightarrow> b \<noteq> [] \<and> results ?p' ''vetting'' \<noteq> None)
             \<and> (ir \<and> transit_injector p \<noteq> None \<longrightarrow>
                  c \<noteq> [] \<and> results ?p' ''injection_retrieval'' \<noteq> None)"
    by blast
  have ts: "list_ex is_transit_search (a @ b @ c) \<longleftrightarrow> a \<noteq> []"
    using A B C by (auto simp: list_ex_iff dest: vetting_only injection_only)
  have vt: "list_ex is_vetting (a @ b @ c) \<longleftrightarrow> b \<noteq> []"
    using A B C by (auto simp: list_ex_iff dest: transit_search_only injection_only)
  have tf_same: "results ?p' ''transit_finding'' = results p ''transit_finding''" if "\<not> ft"
  proof -
    have "a = []" using A that by simp
    then have "\<not> list_ex (\<lambda>c. stage_key c = Some ''transit_finding'') (MaskAll ?mk # a @ b @ c)"
      using B C by auto
    then show ?thesis by (rule extends_unchanged [OF ext])
  qed
  have v_same: "results ?p' ''vetting'' = results p ''vetting''" if "\<not> (vc \<and> ft)"
  proof -
    have "b = []" using B that by blast
    then have "\<not> list_ex (\<lambda>c. stage_key c = Some ''vetting'') (MaskAll ?mk # a @ b @ c)"
      using A C by auto
    then show ?thesis by (rule extends_unchanged [OF ext])
  qed
  have 1: "calls ?p' = calls p @ MaskAll ?mk # (a @ b @ c)"
    using ext by (simp add: extends_def)
  have 2: "list_ex is_transit_search (a @ b @ c) \<longrightarrow> ft" using ts A by blast
  have 3: "list_ex is_vetting (a @ b @ c) \<longrightarrow> vc \<and> ft" using vt B by blast
  have 4: "\<forall>reg. ?R = Inr reg \<longrightarrow>
           (list_ex is_transit_search (a @ b @ c) \<longleftrightarrow> ft)
         \<and> (list_ex is_vetting (a @ b @ c) \<longleftrightarrow> (vc \<and> ft))
         \<and> (if ft then reg ''transit_finding'' \<noteq> None
             else reg ''transit_finding'' = results p ''transit_finding'')
         \<and> (if vc \<and> ft then reg ''vetting'' \<noteq> None
             else reg ''vetting'' = results p ''vetting'')"
  proof (intro allI impI)
    fix reg assume r: "?R = Inr reg"
    with D have d: "reg = results ?p'" "ft \<longrightarrow> a \<noteq> [] \<and> results ?p' ''transit_finding'' \<noteq> None"
      "vc \<and> ft \<longrightarrow> b \<noteq> [] \<and> results ?p' ''vetting'' \<noteq> None"
      by blast+
    show "(list_ex is_transit_search (a @ b @ c) \<longleftrightarrow> ft)
         \<and> (list_ex is_vetting (a @ b @ c) \<longleftrightarrow> (vc \<and> ft))
         \<and> (if ft then reg ''transit_finding'' \<noteq> None
             else reg ''transit_finding'' = results p ''transit_finding'')
         \<and> (if vc \<and> ft then reg ''vetting'' \<noteq> None
             else reg ''vetting'' = results p ''vetting'')"
      using d ts vt A B tf_same v_same by (cases ft; cases vc) auto
  qed
  from 1 2 3 4 show ?thesis by blast
qed

theorem run_stage_gating_witness:
  "calls (snd (run demo True True False no_run_kwargs demo_init)) =
     [MaskAll [],
      ProcessDirectory ''./data'' ''transit_events.txt'' ''./results'' None,
      CompareEvents (Snippets [''snippet-1'', ''snippet-2'']) ''vetting_results.csv'' ''./results'']
 \<and> registry_entry ''vetting'' (fst (run demo False True False no_run_kwargs demo_init)) = Inr None
 \<and> \<not> list_ex is_vetting (calls (snd (run demo False True False no_run_kwargs demo_init)))"
proof -
  have init_calls: "calls demo_init = []" "results demo_init ''vetting'' = None"
    by (simp_all add: demo_init_def init_def Let_def)
  have ret: "fst (run demo False True False no_run_kwargs demo_init)
      = Inr (results (snd (run demo False True False no_run_kwargs demo_init)))"
    by (simp add: pipeline_defs demo_def demo_init_def)
  from run_stage_gating [of demo False True False no_run_kwargs demo_init]
  obtain rest where
    c: "calls (snd (run demo False True False no_run_kwargs demo_init)) = MaskAll [] # rest"
    and v: "\<not> list_ex is_vetting rest"
    and r: "results (snd (run demo False True False no_run_kwargs demo_init)) ''vetting'' = None"
    using init_calls ret by (auto simp: no_run_kwargs_def)
  have 1: "calls (snd (run demo True True False no_run_kwargs demo_init)) =
     [MaskAll [],
      ProcessDirectory ''./data'' ''transit_events.txt'' ''./results'' None,
      CompareEvents (Snippets [''snippet-1'', ''snippet-2'']) ''vetting_results.csv'' ''./results'']"
    by (simp add: demo_full_run)
  show ?thesis using 1 c v r ret by (simp add: registry_entry_def)
qed

section \<open>A pipeline without transit injector\<close>

text \<open>
  C2. On an instance constructed without transit models (\<open>transit_injector\<close> is
  \<open>None\<close>), after any sequence of operations: \<open>run_injection_retrieval\<close>
  called directly raises the \<open>ValueError\<close> and changes nothing;
  \<open>run(injection_retrieval=True)\<close> returns or raises exactly as the same call with
  \<open>injection_retrieval=False\<close> does, with the same registry, and when it returns
  its log differs only by the warning before the closing message; the returned registry
  has no \<open>injection_retrieval\<close> key and the injector is never called.
\<close>

theorem missing_injector:
  assumes "tmp = None \<or> tmp = Some []"
    and "p = exec_ops C ops (init dd od tmp n ex nt w)"
  shows "run_injection_retrieval C n_inj f d p =
           (Inl (ValueError ''Transit injector not initialized - provide transit_models_path''), p)
       \<and> run C ft vc True kw p =
           (case run C ft vc False kw p of
              (Inl e, q) \<Rightarrow> (Inl e, q)
            | (Inr reg, q) \<Rightarrow>
                (Inr reg,
                 q\<lparr>logged := butlast (logged q) @
                    [(WARNING, ''Injection-retrieval requested but transit models not provided - skipping''),
                     (INFO, ''Pipeline complete'')]\<rparr>))
       \<and> (\<forall>reg. fst (run C ft vc True kw p) = Inr reg \<longrightarrow> reg ''injection_retrieval'' = None)
       \<and> \<not> list_ex is_injection (calls (snd (run C ft vc True kw p)))"
proof -
  have ni: "no_injection p"
    unfolding assms(2) by (rule no_injection_exec_ops [OF no_injection_init [OF assms(1)]])
  then have inj: "transit_injector p = None" by (simp add: no_injection_def)
  have 1: "run_injection_retrieval C n_inj f d p =
           (Inl (ValueError ''Transit injector not initialized - provide transit_models_path''), p)"
    using inj by (simp add: run_injection_retrieval_def)
  note 2 = run_without_injector [OF inj, of C ft vc kw]
  have after: "no_injection (snd (run C ft vc True kw p))"
    using no_injection_exec_op [OF ni, of C "Run ft vc True kw"] by simp
  have "run C ft vc True kw p = (fst (run C ft vc True kw p), snd (run C ft vc True kw p))"
    by simp
  from run_summary [OF this]
  have "\<forall>reg. fst (run C ft vc True kw p) = Inr reg \<longrightarrow> reg = results (snd (run C ft vc True kw p))"
    by blast
  then have 3: "\<forall>reg. fst (run C ft vc True kw p) = Inr reg \<longrightarrow> reg ''injection_retrieval'' = None"
    using after by (auto simp: no_injection_def)
  have 4: "\<not> list_ex is_injection (calls (snd (run C ft vc True kw p)))"
    using after by (simp add: no_injection_def)
  from 1 2 3 4 show ?thesis by blast
qed

theorem missing_injector_witness:
  "run_injection_retrieval demo None ''injection_results.csv'' None demo_init =
     (Inl (ValueError ''Transit injector not initialized - provide transit_models_path''), demo_init)
 \<and> registry_entry ''injection_retrieval'' (fst (run demo True True True no_run_kwargs demo_init)) =
     Inr None
 \<and> registry_entry ''vetting'' (fst (run demo True True True no_run_kwargs demo_init)) =
     Inr (Some [''snippet-1'', ''snippet-2''])
 \<and> drop 11 (logged (snd (run demo True True True no_run_kwargs demo_init))) =
     [(WARNING, ''Injection-retrieval requested but transit models not provided - skipping''),
      (INFO, ''Pipeline complete'')]"
proof -
  have h: "(None :: string option) = None \<or> (None :: string option) = Some []" by simp
  have p: "demo_init = exec_ops demo [] (init ''./data'' ''./results'' None 100 True 3 0)"
    by (simp add: demo_init_def)
  from missing_injector [OF h p, of None "''injection_results.csv''" None True True no_run_kwargs]
  show ?thesis by (simp add: demo_full_run registry_entry_def)
qed

section \<open>The input of the vetting stage\<close>

text \<open>
  C7 as the specification states it fails for \<open>vet_candidates\<close> called directly:
  after \<open>find_transits\<close> left two snippets in the transit finder's memory,
  \<open>vet_candidates()\<close> with no argument reads the directory
  \<open>./results/event_snippets\<close> and not the snippets in memory.
\<close>

theorem vetting_input_counterexample:
  "finder_event_snippets demo (world demo_after_search) = Some [''snippet-1'', ''snippet-2'']
 \<and> calls (snd (vet_candidates demo None None ''vetting_results.csv'' None demo_after_search)) =
     [ProcessDirectory ''./data'' ''transit_events.txt'' ''./results'' None,
      CompareEvents (SnippetDir ''./results/event_snippets'') ''vetting_results.csv'' ''./results'']"
  by (simp add: demo_after_search_def pipeline_defs demo_def demo_init_def str_nat.simps)

text \<open>
  C7, amended. When \<open>run\<close> executes its vetting stage, the input is resolved in
  three tiers: (a) an \<open>event_snippets\<close> entry in the caller's
  \<open>vet_candidates_kwargs\<close> is passed on as it is, a collection being vetted in
  memory and an explicit \<open>None\<close> from files; (b) with no such entry, the transit
  finder's in-memory snippets are used when there are some; (c) otherwise vetting reads a
  directory, \<open>event_snippets_dir\<close> or by default \<open>event_snippets\<close> under the
  pipeline's output directory. \<open>vet_candidates\<close> called directly has the tiers (a)
  and (c) only: it does not consult the transit finder.
\<close>

theorem vetting_input_resolution:
  assumes "vk = (case vet_candidates_kwargs kw of None \<Rightarrow> no_vet_kwargs | Some k \<Rightarrow> k)"
    and "dir = (case vk_event_snippets_dir vk of
                  None \<Rightarrow> os_path_join (output_dir p) ''event_snippets'' | Some d \<Rightarrow> d)"
    and "fs = (case finder_event_snippets C (world p) of None \<Rightarrow> [] | Some s \<Rightarrow> s)"
  shows "(\<exists>src f od.
            calls (snd (vetting_step C True True kw p)) = calls p @ [CompareEvents src f od]
          \<and> (\<forall>sn. vk_event_snippets vk = Some (Some sn) \<longrightarrow> src = Snippets sn)
          \<and> (vk_event_snippets vk = Some None \<longrightarrow> src = SnippetDir dir)
          \<and> (vk_event_snippets vk = None \<and> fs \<noteq> [] \<longrightarrow> src = Snippets fs)
          \<and> (vk_event_snippets vk = None \<and> fs = [] \<longrightarrow> src = SnippetDir dir))
       \<and> (\<exists>f od.
            calls (snd (vet_candidates C es edir f0 od0 p)) =
              calls p @
              [CompareEvents
                 (case es of
                    Some sn \<Rightarrow> Snippets sn
                  | None \<Rightarrow> SnippetDir (case edir of
                                          None \<Rightarrow> os_path_join (output_dir p) ''event_snippets''
                                        | Some d \<Rightarrow> d))
                 f od])"
proof -
  have "vetting_step C True True kw p =
      (fst (vetting_step C True True kw p), snd (vetting_step C True True kw p))"
    by simp
  note e = vetting_step_effect(1) [OF this]
  have src: "(\<forall>sn. vk_event_snippets vk = Some (Some sn) \<longrightarrow> vetting_source C kw p = Snippets sn)
          \<and> (vk_event_snippets vk = Some None \<longrightarrow> vetting_source C kw p = SnippetDir dir)
          \<and> (vk_event_snippets vk = None \<and> fs \<noteq> [] \<longrightarrow> vetting_source C kw p = Snippets fs)
          \<and> (vk_event_snippets vk = None \<and> fs = [] \<longrightarrow> vetting_source C kw p = SnippetDir dir)"
    unfolding assms vetting_source_def Let_def by (auto split: option.splits)
  have 1: "\<exists>src f od.
            calls (snd (vetting_step C True True kw p)) = calls p @ [CompareEvents src f od]
          \<and> (\<forall>sn. vk_event_snippets vk = Some (Some sn) \<longrightarrow> src = Snippets sn)
          \<and> (vk_event_snippets vk = Some None \<longrightarrow> src = SnippetDir dir)
          \<and> (vk_event_snippets vk = None \<and> fs \<noteq> [] \<longrightarrow> src = Snippets fs)
          \<and> (vk_event_snippets vk = None \<and> fs = [] \<longrightarrow> src = SnippetDir dir)"
    using e src by (intro exI [of _ "vetting_source C kw p"]) auto
  have "vet_candidates C es edir f0 od0 p =
      (fst (vet_candidates C es edir f0 od0 p), snd (vet_candidates C es edir f0 od0 p))"
    by simp
  note d = vet_candidates_effect(1) [OF this]
  then have 2: "\<exists>f od.
            calls (snd (vet_candidates C es edir f0 od0 p)) =
              calls p @
              [CompareEvents
                 (case es of
                    Some sn \<Rightarrow> Snippets sn
                  | None \<Rightarrow> SnippetDir (case edir of
                                          None \<Rightarrow> os_path_join (output_dir p) ''event_snippets''
                                        | Some d \<Rightarrow> d))
                 f od]"
    by blast
  from 1 2 show ?thesis by blast
qed

theorem vetting_input_resolution_witness:
  "map call_source (calls (snd (vetting_step demo True True no_run_kwargs demo_after_search))) =
     [None, Some (Snippets [''snippet-1'', ''snippet-2''])]
 \<and> map call_source (calls (snd (vetting_step demo True True no_run_kwargs demo_init))) =
     [Some (SnippetDir ''./results/event_snippets'')]
 \<and> map call_source (calls (snd (vetting_step demo True True own_snippets_kwargs demo_after_search))) =
     [None, Some (Snippets [''own-snippet''])]"
proof -
  have s: "calls demo_after_search = [ProcessDirectory ''./data'' ''transit_events.txt'' ''./results'' None]"
    "finder_event_snippets demo (world demo_after_search) = Some [''snippet-1'', ''snippet-2'']"
    "output_dir demo_after_search = ''./results''"
    by (simp_all add: demo_after_search_def pipeline_defs demo_def demo_init_def str_nat.simps)
  have i: "calls demo_init = []" "finder_event_snippets demo (world demo_init) = None"
    "output_dir demo_init = ''./results''"
    by (simp_all add: demo_init_def init_def Let_def demo_def)
  have k: "vet_candidates_kwargs (no_run_kwargs :: string run_kwargs) = None"
    "vk_event_snippets (no_vet_kwargs :: string vet_kwargs) = None"
    "vk_event_snippets_dir (no_vet_kwargs :: string vet_kwargs) = None"
    "vet_candidates_kwargs own_snippets_kwargs =
       Some (no_vet_kwargs\<lparr>vk_event_snippets := Some (Some [''own-snippet''])\<rparr>)"
    by (simp_all add: no_run_kwargs_def no_vet_kwargs_def own_snippets_kwargs_def)
  have j: "os_path_join ''./results'' ''event_snippets'' = ''./results/event_snippets''"
    by (simp add: os_path_join_def)
  have "\<exists>f od. calls (snd (vetting_step demo True True no_run_kwargs demo_after_search)) =
       calls demo_after_search @ [CompareEvents (Snippets [''snippet-1'', ''snippet-2'']) f od]"
    using vetting_input_resolution [OF refl refl refl, of demo no_run_kwargs demo_after_search]
    by (simp add: s k)
  then have 1: "map call_source (calls (snd (vetting_step demo True True no_run_kwargs demo_after_search))) =
     [None, Some (Snippets [''snippet-1'', ''snippet-2''])]"
    using s by auto
  have "\<exists>f od. calls (snd (vetting_step demo True True no_run_kwargs demo_init)) =
       calls demo_init @ [CompareEvents (SnippetDir ''./results/event_snippets'') f od]"
    using vetting_input_resolution [OF refl refl refl, of demo no_run_kwargs demo_init]
    by (simp add: i k j)
  then have 2: "map call_source (calls (snd (vetting_step demo True True no_run_kwargs demo_init))) =
     [Some (SnippetDir ''./results/event_snippets'')]"
    using i by auto
  have "\<exists>f od. calls (snd (vetting_step demo True True own_snippets_kwargs demo_after_search)) =
       calls demo_after_search @ [CompareEvents (Snippets [''own-snippet'']) f od]"
    using vetting_input_resolution [OF refl refl refl, of demo own_snippets_kwargs demo_after_search]
    by (simp add: s k)
  then have 3: "map call_source (calls (snd (vetting_step demo True True own_snippets_kwargs demo_after_search))) =
     [None, Some (Snippets [''own-snippet''])]"
    using s by auto
  from 1 2 3 show ?thesis by blast
qed

text \<open>
  C10 as stated fails in its last sentence: when the transit finder holds no snippets
  and the caller's \<open>vet_candidates_kwargs\<close> carry \<open>event_snippets\<close>, \<open>run\<close>
  logs the message about file-based processing and vets the caller's snippets in memory.
\<close>

theorem empty_snippets_counterexample:
  "finder_event_snippets demo_no_snippets
     (world (snd (run demo_no_snippets True True False own_snippets_kwargs demo_init))) = Some []
 \<and> calls (snd (run demo_no_snippets True True False own_snippets_kwargs demo_init)) =
     [MaskAll [],
      ProcessDirectory ''./data'' ''transit_events.txt'' ''./results'' None,
      CompareEvents (Snippets [''own-snippet'']) ''vetting_results.csv'' ''./results'']
 \<and> logged (snd (run demo_no_snippets True True False own_snippets_kwargs demo_init)) ! 8 =
     (INFO, ''No event snippets in memory, using file-based processing'')"
  by (simp add: pipeline_defs demo_no_snippets_def demo_def demo_init_def own_snippets_kwargs_def
      str_nat.simps)

text \<open>
  C10, amended. \<open>vet_candidates\<close> called with \<open>event_snippets = []\<close> hands
  the empty collection to the model comparator, whatever \<open>event_snippets_dir\<close> is;
  it reads a directory exactly when \<open>event_snippets\<close> is \<open>None\<close>. When
  \<open>run\<close> finds the transit finder's snippet list empty or absent, it calls
  \<open>vet_candidates\<close> with the caller's keyword arguments unchanged, so that vetting
  reads the directory when the caller gave no \<open>event_snippets\<close>.
\<close>

theorem empty_versus_absent_snippets:
  assumes "vk = (case vet_candidates_kwargs kw of None \<Rightarrow> no_vet_kwargs | Some k \<Rightarrow> k)"
    and "dir = (case vk_event_snippets_dir vk of
                  None \<Rightarrow> os_path_join (output_dir p) ''event_snippets'' | Some d \<Rightarrow> d)"
  shows "calls (snd (vet_candidates C (Some []) edir f od p)) =
           calls p @ [CompareEvents (Snippets []) f (case od of None \<Rightarrow> output_dir p | Some d \<Rightarrow> d)]
       \<and> ((\<exists>d. calls (snd (vet_candidates C es edir f od p)) =
                 calls p @ [CompareEvents (SnippetDir d) f
                              (case od of None \<Rightarrow> output_dir p | Some d \<Rightarrow> d)])
            \<longleftrightarrow> es = None)
       \<and> (finder_event_snippets C (world p) = None \<or> finder_event_snippets C (world p) = Some [] \<longrightarrow>
            vetting_step C True True kw p =
              and_then
                (vet_candidates_kw C vk
                   (log_msg INFO ''No event snippets in memory, using file-based processing''
                      (log_msg INFO ''Step 3: Model comparison vetting'' p)))
                (\<lambda>vetting_results p3.
                   (Inr (), p3\<lparr>results := (results p3)(''vetting'' \<mapsto> vetting_results)\<rparr>))
          \<and> (vk_event_snippets vk = None \<longrightarrow>
               (\<exists>f od. calls (snd (vetting_step C True True kw p)) =
                         calls p @ [CompareEvents (SnippetDir dir) f od])))"
proof -
  have v: "vet_candidates C x edir f od p =
      (fst (vet_candidates C x edir f od p), snd (vet_candidates C x edir f od p))" for x
    by simp
  have 1: "calls (snd (vet_candidates C (Some []) edir f od p)) =
           calls p @ [CompareEvents (Snippets []) f (case od of None \<Rightarrow> output_dir p | Some d \<Rightarrow> d)]"
    using vet_candidates_effect(1) [OF v [of "Some []"]] by simp
  have 2: "(\<exists>d. calls (snd (vet_candidates C es edir f od p)) =
                 calls p @ [CompareEvents (SnippetDir d) f
                              (case od of None \<Rightarrow> output_dir p | Some d \<Rightarrow> d)])
            \<longleftrightarrow> es = None"
    using vet_candidates_effect(1) [OF v [of es]] by (cases es) auto
  have 3: "vetting_step C True True kw p =
              and_then
                (vet_candidates_kw C vk
                   (log_msg INFO ''No event snippets in memory, using file-based processing''
                      (log_msg INFO ''Step 3: Model comparison vetting'' p)))
                (\<lambda>vetting_results p3.
                   (Inr (), p3\<lparr>results := (results p3)(''vetting'' \<mapsto> vetting_results)\<rparr>))
          \<and> (vk_event_snippets vk = None \<longrightarrow>
               (\<exists>f od. calls (snd (vetting_step C True True kw p)) =
                         calls p @ [CompareEvents (SnippetDir dir) f od]))"
    if empty: "finder_event_snippets C (world p) = None \<or> finder_event_snippets C (world p) = Some []"
  proof
    show "vetting_step C True True kw p =
              and_then
                (vet_candidates_kw C vk
                   (log_msg INFO ''No event snippets in memory, using file-based processing''
                      (log_msg INFO ''Step 3: Model comparison vetting'' p)))
                (\<lambda>vetting_results p3.
                   (Inr (), p3\<lparr>results := (results p3)(''vetting'' \<mapsto> vetting_results)\<rparr>))"
      using empty unfolding vetting_step_unfold assms(1) Let_def by auto
    have "vetting_step C True True kw p =
      (fst (vetting_step C True True kw p), snd (vetting_step C True True kw p))"
      by simp
    note e = vetting_step_effect(1) [OF this]
    have "vetting_source C kw p = SnippetDir dir" if "vk_event_snippets vk = None"
      using empty that unfolding assms vetting_source_def Let_def by (auto split: option.splits)
    with e show "vk_event_snippets vk = None \<longrightarrow>
               (\<exists>f od. calls (snd (vetting_step C True True kw p)) =
                         calls p @ [CompareEvents (SnippetDir dir) f od])"
      by auto
  qed
  from 1 2 3 show ?thesis by blast
qed

theorem empty_versus_absent_snippets_witness:
  "map call_source (calls (snd (vet_candidates demo (Some []) None ''vetting_results.csv'' None demo_init))) =
     [Some (Snippets [])]
 \<and> map call_source
      (calls (snd (vetting_step demo_no_snippets True True no_run_kwargs demo_after_search))) =
     [None, Some (SnippetDir ''./results/event_snippets'')]"
proof -
  have s: "calls demo_after_search = [ProcessDirectory ''./data'' ''transit_events.txt'' ''./results'' None]"
    "finder_event_snippets demo_no_snippets (world demo_after_search) = Some []"
    "output_dir demo_after_search = ''./results''"
    by (simp_all add: demo_after_search_def pipeline_defs demo_def demo_init_def str_nat.simps
        demo_no_snippets_def)
  have i: "calls demo_init = []" "output_dir demo_init = ''./results''"
    by (simp_all add: demo_init_def init_def Let_def)
  have k: "vet_candidates_kwargs (no_run_kwargs :: string run_kwargs) = None"
    "vk_event_snippets (no_vet_kwargs :: string vet_kwargs) = None"
    "vk_event_snippets_dir (no_vet_kwargs :: string vet_kwargs) = None"
    by (simp_all add: no_run_kwargs_def no_vet_kwargs_def)
  have j: "os_path_join ''./results'' ''event_snippets'' = ''./results/event_snippets''"
    by (simp add: os_path_join_def)
  have 1: "map call_source (calls (snd (vet_candidates demo (Some []) None ''vetting_results.csv'' None demo_init))) =
     [Some (Snippets [])]"
    using empty_versus_absent_snippets [OF refl refl, of demo None "''vetting_results.csv''" None demo_init]
    by (simp add: i)
  have "\<exists>f od. calls (snd (vetting_step demo_no_snippets True True no_run_kwargs demo_after_search)) =
       calls demo_after_search @ [CompareEvents (SnippetDir ''./results/event_snippets'') f od]"
    using empty_versus_absent_snippets [OF refl refl, of demo_no_snippets None
        "''vetting_results.csv''" None demo_after_search None no_run_kwargs,
        THEN conjunct2, THEN conjunct2, rule_format, THEN conjunct2, rule_format]
    by (simp add: s k j)
  then have 2: "map call_source
      (calls (snd (vetting_step demo_no_snippets True True no_run_kwargs demo_after_search))) =
     [None, Some (SnippetDir ''./results/event_snippets'')]"
    using s by auto
  from 1 2 show ?thesis by blast
qed

section \<open>The results registry\<close>

text \<open>
  C8. The registry of a new instance is empty. No operation removes a key: the keys
  before an operation, and before any sequence of operations, are there after it. An
  entry differs after an operation only if the collaborator of the stage with that key
  was called during the operation. What \<open>run\<close> returns is the registry of the
  instance, with the keys of earlier calls.
\<close>

theorem registry_append_only:
  "results (init dd od tmp n ex nt w :: ('w, 'r, 's) pipeline) = Map.empty
 \<and> dom (results p) \<subseteq> dom (results (exec_op C op (p :: ('w, 'r, 's) pipeline)))
 \<and> (\<forall>k. results (exec_op C op p) k \<noteq> results p k \<longrightarrow>
        list_ex (\<lambda>c. stage_key c = Some k) (drop (length (calls p)) (calls (exec_op C op p))))
 \<and> dom (results p) \<subseteq> dom (results (exec_ops C ops p))
 \<and> (\<forall>reg. fst (run C ft vc ir kw p) = Inr reg \<longrightarrow>
        reg = results (snd (run C ft vc ir kw p)) \<and> dom (results p) \<subseteq> dom reg)"
proof -
  have 1: "results (init dd od tmp n ex nt w :: ('w, 'r, 's) pipeline) = Map.empty"
    by (simp add: init_def Let_def)
  obtain cs where cs: "extends p cs (exec_op C op p)" using exec_op_extends by blast
  have 2: "dom (results p) \<subseteq> dom (results (exec_op C op p))" by (rule extends_dom [OF cs])
  have 3: "\<forall>k. results (exec_op C op p) k \<noteq> results p k \<longrightarrow>
        list_ex (\<lambda>c. stage_key c = Some k) (drop (length (calls p)) (calls (exec_op C op p)))"
    using cs unfolding extends_calls [OF cs] unfolding extends_def by blast
  obtain cs' where cs': "extends p cs' (exec_ops C ops p)" using exec_ops_extends by blast
  have 4: "dom (results p) \<subseteq> dom (results (exec_ops C ops p))" by (rule extends_dom [OF cs'])
  have "run C ft vc ir kw p = (fst (run C ft vc ir kw p), snd (run C ft vc ir kw p))" by simp
  from run_summary [OF this]
  have r: "\<forall>reg. fst (run C ft vc ir kw p) = Inr reg \<longrightarrow> reg = results (snd (run C ft vc ir kw p))"
    by blast
  have "dom (results p) \<subseteq> dom (results (snd (run C ft vc ir kw p)))"
    using extends_dom run_extends by blast
  with r have 5: "\<forall>reg. fst (run C ft vc ir kw p) = Inr reg \<longrightarrow>
        reg = results (snd (run C ft vc ir kw p)) \<and> dom (results p) \<subseteq> dom reg"
    by blast
  from 1 2 3 4 5 show ?thesis by blast
qed

theorem registry_append_only_witness:
  "dom (results demo_after_full_run) = {''transit_finding'', ''vetting''}
 \<and> {''transit_finding'', ''vetting''} \<subseteq>
     dom (results (exec_ops demo [Run False False True no_run_kwargs,
                                  VetCandidates None None ''vetting_results.csv'' None,
                                  Run True False False no_run_kwargs] demo_after_full_run))"
proof -
  have d: "dom (results demo_after_full_run) = {''transit_finding'', ''vetting''}"
    by (auto simp: demo_after_full_run_def demo_full_run)
  from registry_append_only [of "''./data''" "''./results''" None 100 True 3 0
      demo_after_full_run demo "Run False False True no_run_kwargs"
      "[Run False False True no_run_kwargs,
        VetCandidates None None ''vetting_results.csv'' None,
        Run True False False no_run_kwargs]"]
  show ?thesis unfolding d by blast
qed

end
